theory Spec2Isabelle
  imports Complex_Main "HOL-Library.Word" "HOL-Library.Monad_Syntax"
begin

section \<open>Data model of package \<open>matrix\<close>\<close>

text \<open>
  The embedding follows \<open>matrix/matrix.go\<close> (the version with \<open>Clone\<close>, \<open>Add\<close>,
  \<open>Sub\<close>, \<open>Addn\<close>, \<open>Scale\<close> and \<open>Dot\<close>).

  \<^item> Go's \<open>int\<close> is the 64-bit two's complement integer of the common platforms:
    \<open>+\<close> and \<open>*\<close> wrap around, comparisons are signed (\<open><s\<close>, \<open>\<le>s\<close>, \<open>sint\<close>).
  \<^item> The element type \<open>float64\<close> is a type parameter \<open>'a\<close>; each operation asks only for
    the arithmetic it uses (\<open>zero\<close> for \<open>make\<close>, \<open>plus\<close> for \<open>Add\<close>, ...), so no law of
    exact arithmetic is assumed of it.
  \<^item> A slice made by \<open>make\<close> is the address of its backing array in a store of arrays; the
    store is a list, an address is an index into it, and allocation appends. The fields
    \<open>rows\<close> and \<open>cols\<close> of a \<open>Matrix\<close> are never assigned after construction, so a
    \<open>*Matrix\<close> is modelled by the struct value itself: two pointers alias exactly when
    their \<open>data\<close> slices do.
  \<^item> A run-time panic (index out of range, \<open>makeslice: len out of range\<close>) is the result
    \<open>None\<close>; an \<open>error\<close> returned by \<open>fmt.Errorf\<close> is a value of type \<open>error\<close>, whose
    constructors carry the arguments of the format string.
  \<^item> The embedded \<open>sync.RWMutex\<close> only serialises single element accesses; the model is
    sequential and leaves it out.
  \<^item> The largest length that \<open>make\<close> allocates belongs to the Go runtime, not to this
    package (\<open>makeslice\<close> panics with \<open>len out of range\<close> beyond it): it is the parameter
    \<open>maxlen\<close> of \<open>make\<close>, \<open>New\<close>, \<open>T\<close> and \<open>Clone\<close>. Running out of memory below that
    limit is not modelled.
  \<^item> \<open>String\<close> formats floating-point values and is not part of the model.
\<close>

type_synonym go_int = "64 word"
type_synonym addr = nat
type_synonym 'a heap = "'a list list"

record Matrix =
  rows :: go_int
  cols :: go_int
  data :: addr

datatype error =
    InvalidDimensions go_int go_int
      \<comment> \<open>\<open>"Dimetions %dx%d must not being negative"\<close>\<close>
  | NegativeIndex go_int go_int
      \<comment> \<open>\<open>"Position (%d, %d) must not being negative"\<close>\<close>
  | IndexOutOfRange go_int go_int go_int go_int
      \<comment> \<open>\<open>"Position (%d, %d) is out of the range (0:%d, 0:%d)"\<close>\<close>
  | DimensionMismatch go_int go_int go_int go_int
      \<comment> \<open>\<open>"Dimentions of two matrices %dx%d and %dx%d are not equal"\<close>\<close>

subsection \<open>Slices in the store\<close>

text \<open>The array behind a slice; an address that was never allocated reads as the nil
  slice, of length 0.\<close>

definition slice :: "'a heap \<Rightarrow> addr \<Rightarrow> 'a list" where
  "slice h a = (if a < length h then h ! a else [])"

text \<open>\<open>s[k]\<close>: panics unless \<open>0 \<le> k < len(s)\<close>.\<close>

definition index :: "'a heap \<Rightarrow> addr \<Rightarrow> go_int \<Rightarrow> 'a option" where
  "index h a k =
     (if 0 \<le>s k \<and> sint k < int (length (slice h a))
      then Some (slice h a ! nat (sint k)) else None)"

text \<open>\<open>s[k] = v\<close>: panics unless \<open>0 \<le> k < len(s)\<close>.\<close>

definition assign :: "'a heap \<Rightarrow> addr \<Rightarrow> go_int \<Rightarrow> 'a \<Rightarrow> 'a heap option" where
  "assign h a k v =
     (if 0 \<le>s k \<and> sint k < int (length (slice h a))
      then Some (h[a := (slice h a)[nat (sint k) := v]]) else None)"

text \<open>\<open>make([]float64, n)\<close>: panics when \<open>n\<close> is negative or beyond the largest length
  \<open>maxlen\<close> that the runtime allocates, otherwise a fresh array of \<open>n\<close> zeros.\<close>

definition make :: "nat \<Rightarrow> 'a::zero heap \<Rightarrow> go_int \<Rightarrow> (addr \<times> 'a heap) option" where
  "make maxlen h n =
     (if n <s 0 \<or> int maxlen < sint n then None
      else Some (length h, h @ [replicate (nat (sint n)) 0]))"

text \<open>\<open>copy(dst, src)\<close>: copies \<open>min(len(dst), len(src))\<close> elements.\<close>

definition copy :: "'a heap \<Rightarrow> addr \<Rightarrow> addr \<Rightarrow> 'a heap" where
  "copy h dst src =
     (if dst < length h
      then h[dst := take (length (slice h dst)) (slice h src)
                     @ drop (length (slice h src)) (slice h dst)]
      else h)"

subsection \<open>The loop \<open>for i := 0; i < n; i++\<close>\<close>

function for_loop :: "go_int \<Rightarrow> go_int \<Rightarrow> (go_int \<Rightarrow> 's \<Rightarrow> 's option) \<Rightarrow> 's \<Rightarrow> 's option" where
  "for_loop i n body s =
     (if i <s n
      then (case body i s of None \<Rightarrow> None | Some s' \<Rightarrow> for_loop (i + 1) n body s')
      else Some s)"
  by pat_completeness auto

termination for_loop
proof (relation "measure (\<lambda>(i, n, body, s). nat (sint n - sint i))")
  show "wf (measure (\<lambda>(i :: go_int, n :: go_int, body :: go_int \<Rightarrow> 's \<Rightarrow> 's option, s :: 's).
          nat (sint n - sint i)))"
    by simp
next
  fix i n :: go_int and body :: "go_int \<Rightarrow> 's \<Rightarrow> 's option" and s s' :: 's
  assume less: "i <s n"
  have "sint n < 2 ^ 63"
    using sint_lt [of n] by simp
  moreover have "- (2 ^ 63) \<le> sint i"
    using sint_ge [of i] by simp
  ultimately have "- (2 ^ 63) \<le> sint i + 1" and "sint i + 1 < 2 ^ 63"
    using less by (simp_all add: word_sless_alt)
  then have "signed_take_bit 63 (sint i + 1) = sint i + 1"
    by (rule signed_take_bit_int_eq_self)
  then have "sint (i + 1) = sint i + 1"
    by (simp add: sint_word_ariths)
  with less show "((i + 1, n, body, s'), (i, n, body, s))
      \<in> measure (\<lambda>(i, n, body, s). nat (sint n - sint i))"
    by (simp add: word_sless_alt)
qed

declare for_loop.simps [simp del]

section \<open>The operations\<close>

definition New :: "nat \<Rightarrow> 'a::zero heap \<Rightarrow> go_int \<Rightarrow> go_int \<Rightarrow> ((error + Matrix) \<times> 'a heap) option" where
  "New maxlen h r c =
     (if r <s 0 \<or> c <s 0 then Some (Inl (InvalidDimensions r c), h)
      else do {
        (a, h') \<leftarrow> make maxlen h (r * c);
        Some (Inr \<lparr>rows = r, cols = c, data = a\<rparr>, h')
      })"

definition Dimentions :: "Matrix \<Rightarrow> go_int \<times> go_int" where
  "Dimentions m = (rows m, cols m)"

definition Clone :: "nat \<Rightarrow> 'a::zero heap \<Rightarrow> Matrix \<Rightarrow> (Matrix \<times> 'a heap) option" where
  "Clone maxlen h m = do {
     (a, h') \<leftarrow> make maxlen h (rows m * cols m);
     let c = \<lparr>rows = rows m, cols = cols m, data = a\<rparr>;
     Some (c, copy h' (data c) (data m))
   }"

definition checkRange :: "Matrix \<Rightarrow> go_int \<Rightarrow> go_int \<Rightarrow> error option" where
  "checkRange m i j =
     (if i <s 0 \<or> j <s 0 then Some (NegativeIndex i j)
      else if rows m \<le>s i \<or> cols m \<le>s j
        then Some (IndexOutOfRange i j (rows m - 1) (cols m - 1))
      else None)"

definition checkEqualDimentions :: "Matrix \<Rightarrow> Matrix \<Rightarrow> error option" where
  "checkEqualDimentions m x =
     (if rows m \<noteq> rows x \<or> cols m \<noteq> cols x
      then Some (DimensionMismatch (rows m) (cols m) (rows x) (cols x))
      else None)"

definition get :: "'a heap \<Rightarrow> Matrix \<Rightarrow> go_int \<Rightarrow> go_int \<Rightarrow> 'a option" where
  "get h m i j = index h (data m) (cols m * i + j)"

definition set_m :: "'a heap \<Rightarrow> Matrix \<Rightarrow> go_int \<Rightarrow> go_int \<Rightarrow> 'a \<Rightarrow> 'a heap option" where
  "set_m h m i j v = assign h (data m) (cols m * i + j) v"

definition Get :: "'a heap \<Rightarrow> Matrix \<Rightarrow> go_int \<Rightarrow> go_int \<Rightarrow> (error + 'a) option" where
  "Get h m i j =
     (case checkRange m i j of
        Some err \<Rightarrow> Some (Inl err)
      | None \<Rightarrow> do { v \<leftarrow> get h m i j; Some (Inr v) })"

definition Set :: "'a heap \<Rightarrow> Matrix \<Rightarrow> go_int \<Rightarrow> go_int \<Rightarrow> 'a \<Rightarrow> (error option \<times> 'a heap) option" where
  "Set h m i j v =
     (case checkRange m i j of
        Some err \<Rightarrow> Some (Some err, h)
      | None \<Rightarrow> do { h' \<leftarrow> set_m h m i j v; Some (None, h') })"

text \<open>The callback of \<open>Each\<close> is taken to be a pure function of its three arguments.\<close>

definition Each :: "'a heap \<Rightarrow> Matrix \<Rightarrow> (go_int \<Rightarrow> go_int \<Rightarrow> 'a \<Rightarrow> 'a) \<Rightarrow> 'a heap option" where
  "Each h m f =
     for_loop 0 (rows m) (\<lambda>i.
       for_loop 0 (cols m) (\<lambda>j h. do {
         v \<leftarrow> get h m i j;
         set_m h m i j (f i j v)
       })) h"

definition T :: "nat \<Rightarrow> 'a::zero heap \<Rightarrow> Matrix \<Rightarrow> (Matrix \<times> 'a heap) option" where
  "T maxlen h m = do {
     (a, h') \<leftarrow> make maxlen h (rows m * cols m);
     let t = \<lparr>rows = cols m, cols = rows m, data = a\<rparr>;
     h'' \<leftarrow> for_loop 0 (rows m) (\<lambda>i.
              for_loop 0 (cols m) (\<lambda>j h. do {
                v \<leftarrow> get h m i j;
                set_m h t j i v
              })) h';
     Some (t, h'')
   }"

definition Add :: "'a::plus heap \<Rightarrow> Matrix \<Rightarrow> Matrix \<Rightarrow> (error option \<times> 'a heap) option" where
  "Add h m x =
     (case checkEqualDimentions m x of
        Some err \<Rightarrow> Some (Some err, h)
      | None \<Rightarrow> do {
          h' \<leftarrow> for_loop 0 (rows m) (\<lambda>i.
                  for_loop 0 (cols m) (\<lambda>j h. do {
                    a \<leftarrow> get h m i j;
                    b \<leftarrow> get h x i j;
                    set_m h m i j (a + b)
                  })) h;
          Some (None, h')
        })"

definition Sub :: "'a::minus heap \<Rightarrow> Matrix \<Rightarrow> Matrix \<Rightarrow> (error option \<times> 'a heap) option" where
  "Sub h m x =
     (case checkEqualDimentions m x of
        Some err \<Rightarrow> Some (Some err, h)
      | None \<Rightarrow> do {
          h' \<leftarrow> for_loop 0 (rows m) (\<lambda>i.
                  for_loop 0 (cols m) (\<lambda>j h. do {
                    a \<leftarrow> get h m i j;
                    b \<leftarrow> get h x i j;
                    set_m h m i j (a - b)
                  })) h;
          Some (None, h')
        })"

definition Addn :: "'a::plus heap \<Rightarrow> Matrix \<Rightarrow> 'a \<Rightarrow> 'a heap option" where
  "Addn h m n =
     for_loop 0 (rows m) (\<lambda>i.
       for_loop 0 (cols m) (\<lambda>j h. do {
         v \<leftarrow> get h m i j;
         set_m h m i j (v + n)
       })) h"

definition Scale :: "'a::times heap \<Rightarrow> Matrix \<Rightarrow> 'a \<Rightarrow> 'a heap option" where
  "Scale h m n =
     for_loop 0 (rows m) (\<lambda>i.
       for_loop 0 (cols m) (\<lambda>j h. do {
         v \<leftarrow> get h m i j;
         set_m h m i j (v * n)
       })) h"

definition Dot :: "'a::{zero,plus,times} heap \<Rightarrow> Matrix \<Rightarrow> Matrix \<Rightarrow> (error + 'a) option" where
  "Dot h m x =
     (case checkEqualDimentions m x of
        Some err \<Rightarrow> Some (Inl err)
      | None \<Rightarrow> do {
          r \<leftarrow> for_loop 0 (rows m) (\<lambda>i.
                 for_loop 0 (cols m) (\<lambda>j r. do {
                   a \<leftarrow> get h m i j;
                   b \<leftarrow> get h x i j;
                   Some (r + a * b)
                 })) 0;
          Some (Inr r)
        })"


section \<open>Well-formed matrices\<close>

text \<open>
  The data model's invariant: non-negative dimensions, allocated storage, and
  \<open>len(data) = rows * cols\<close> as integers. \<open>len\<close> is a Go \<open>int\<close>, so the length
  is below \<open>2 ^ 63\<close>.
\<close>

definition valid :: "'a heap \<Rightarrow> Matrix \<Rightarrow> bool" where
  "valid h m \<longleftrightarrow>
     0 \<le>s rows m \<and> 0 \<le>s cols m \<and> data m < length h
     \<and> int (length (h ! data m)) = sint (rows m) * sint (cols m)
     \<and> length (h ! data m) < 2 ^ 63"

text \<open>The positions \<open>0 \<le> i < rows\<close>, \<open>0 \<le> j < cols\<close>.\<close>

definition in_range :: "Matrix \<Rightarrow> go_int \<Rightarrow> go_int \<Rightarrow> bool" where
  "in_range m i j \<longleftrightarrow> 0 \<le>s i \<and> i <s rows m \<and> 0 \<le>s j \<and> j <s cols m"

text \<open>The storage of the matrix is no longer than what \<open>make\<close> allocates, as every slice
  is that \<open>make\<close> has returned.\<close>

definition fits :: "nat \<Rightarrow> 'a heap \<Rightarrow> Matrix \<Rightarrow> bool" where
  "fits maxlen h m \<longleftrightarrow> length (slice h (data m)) \<le> maxlen"

section \<open>Auxiliary notions for the proofs\<close>

text \<open>The store after an in-place pass has rewritten the cells at positions below
  \<open>k\<close> of the array at \<open>a\<close>, cell \<open>p\<close> with \<open>g p\<close>.\<close>

definition upd_upto :: "'a heap \<Rightarrow> addr \<Rightarrow> (nat \<Rightarrow> 'a) \<Rightarrow> nat \<Rightarrow> 'a heap" where
  "upd_upto h a g k = h[a := map (\<lambda>p. if p < k then g p else h ! a ! p) [0..<length (h ! a)]]"

text \<open>The row-major position of cell \<open>(i, j)\<close>.\<close>

definition pos :: "Matrix \<Rightarrow> go_int \<Rightarrow> go_int \<Rightarrow> nat" where
  "pos m i j = nat (sint (cols m)) * nat (sint i) + nat (sint j)"

text \<open>Transposition: position \<open>q\<close> of the transpose holds the receiver's cell at position
  \<open>src R C q\<close>; \<open>transposed xs R C k\<close> is the new array after the first \<open>k\<close> cells of
  the receiver have been copied.\<close>

definition src :: "nat \<Rightarrow> nat \<Rightarrow> nat \<Rightarrow> nat" where
  "src R C q = C * (q mod R) + q div R"

definition transposed :: "'a::zero list \<Rightarrow> nat \<Rightarrow> nat \<Rightarrow> nat \<Rightarrow> 'a list" where
  "transposed xs R C k = map (\<lambda>q. if src R C q < k then xs ! src R C q else 0) [0..<R * C]"

text \<open>The value stored for cell \<open>(i, j)\<close>, and the sum that \<open>Dot\<close> accumulates: over
  the rows in order, within a row over the columns in order, starting from \<open>0\<close>.\<close>

definition elem :: "'a heap \<Rightarrow> Matrix \<Rightarrow> nat \<Rightarrow> nat \<Rightarrow> 'a" where
  "elem h m i j = h ! data m ! (nat (sint (cols m)) * i + j)"

definition dot_sum :: "'a::{zero,plus,times} heap \<Rightarrow> Matrix \<Rightarrow> Matrix \<Rightarrow> 'a" where
  "dot_sum h m x =
     foldl (\<lambda>r i. foldl (\<lambda>r j. r + elem h m i j * elem h x i j) r [0..<nat (sint (cols m))])
       0 [0..<nat (sint (rows m))]"

section \<open>Machine integers and the loop\<close>

lemma sint_of_nat_small: "n < 2 ^ 63 \<Longrightarrow> sint (of_nat n :: go_int) = int n"
proof -
  assume "n < 2 ^ 63"
  then have "int n < 2 ^ 63" by (metis of_nat_less_iff of_nat_numeral of_nat_power)
  then have "signed_take_bit 63 (int n) = int n"
    by (intro signed_take_bit_int_eq_self) simp_all
  moreover have "(of_nat n :: go_int) = word_of_int (int n)" by simp
  ultimately show ?thesis by (simp only: sint_sbintrunc') simp
qed

lemma replicate_numeral: "replicate (numeral k) x = x # replicate (pred_numeral k) x"
  by (simp add: numeral_eq_Suc)

lemma of_nat_sint_nonneg: "0 \<le>s (w :: go_int) \<Longrightarrow> of_nat (nat (sint w)) = w"
  by (simp add: word_sle_eq)

lemma nat_sint_bound: "nat (sint (w :: go_int)) < 2 ^ 63"
  using sint_lt [of w] by simp

lemma for_loop_steps:
  fixes F :: "nat \<Rightarrow> 's"
  assumes "b < 2 ^ 63" and "a \<le> b"
    and "\<And>k. a \<le> k \<Longrightarrow> k < b \<Longrightarrow> body (of_nat k) (F k) = Some (F (Suc k))"
  shows "for_loop (of_nat a) (of_nat b) body (F a) = Some (F b)"
  using assms(2,3)
proof (induction "b - a" arbitrary: a)
  case 0
  then have "a = b" by simp
  then show ?case by (simp add: for_loop.simps [of "of_nat b"])
next
  case (Suc d)
  then have lt: "a < b" by simp
  with assms(1) have "a < 2 ^ 63" by simp
  with lt assms(1) have cond: "(of_nat a :: go_int) <s of_nat b"
    by (simp add: word_sless_alt sint_of_nat_small)
  have body: "body (of_nat a) (F a) = Some (F (Suc a))"
    using Suc.prems(2) [of a] lt by simp
  have "for_loop (of_nat (Suc a)) (of_nat b) body (F (Suc a)) = Some (F b)"
    using Suc.hyps(2) lt Suc.prems(2) by (intro Suc.hyps(1)) simp_all
  then show ?case
    using cond body by (simp add: for_loop.simps [of "of_nat a"] add.commute)
qed

lemma nested_for_loop:
  fixes F :: "nat \<Rightarrow> 's" and r c :: go_int
  assumes r: "0 \<le>s r" and c: "0 \<le>s c"
    and step: "\<And>I J. I < nat (sint r) \<Longrightarrow> J < nat (sint c) \<Longrightarrow>
      body (of_nat I) (of_nat J) (F (nat (sint c) * I + J)) = Some (F (Suc (nat (sint c) * I + J)))"
  shows "for_loop 0 r (\<lambda>i. for_loop 0 c (body i)) (F 0) = Some (F (nat (sint r) * nat (sint c)))"
proof -
  define R where "R = nat (sint r)"
  define C where "C = nat (sint c)"
  have rR: "r = of_nat R" and cC: "c = of_nat C"
    using r c by (simp_all add: R_def C_def of_nat_sint_nonneg)
  have Rb: "R < 2 ^ 63" and Cb: "C < 2 ^ 63"
    unfolding R_def C_def by (rule nat_sint_bound)+
  have inner: "for_loop 0 c (body (of_nat I)) (F (C * I)) = Some (F (C * Suc I))" if "I < R" for I
  proof -
    have "for_loop (of_nat 0) (of_nat C) (body (of_nat I)) (F (C * I + 0)) = Some (F (C * I + C))"
      using Cb that step [of I] by (intro for_loop_steps [where F = "\<lambda>J. F (C * I + J)"]) (simp_all add: R_def C_def)
    then show ?thesis by (simp add: cC add.commute)
  qed
  have "for_loop (of_nat 0) (of_nat R) (\<lambda>i. for_loop 0 c (body i)) (F (C * 0)) = Some (F (C * R))"
    using Rb inner by (intro for_loop_steps [where F = "\<lambda>I. F (C * I)"]) simp_all
  then show ?thesis
    by (simp add: rR [symmetric] R_def [symmetric] C_def [symmetric] mult.commute)
qed

lemma cell_bound: "I < R \<Longrightarrow> J < C \<Longrightarrow> C * I + J < R * (C::nat)"
proof -
  assume "I < R" "J < C"
  then have "C * I + J < C * I + C" by simp
  also have "\<dots> = C * Suc I" by simp
  also have "\<dots> \<le> C * R" using \<open>I < R\<close> by (intro mult_le_mono2) simp
  finally show ?thesis by (simp add: mult.commute)
qed

lemma cell_word:
  assumes "R * C < 2 ^ 63" "I < R" "J < C"
  shows "0 \<le>s (of_nat C * of_nat I + of_nat J :: go_int)"
    and "nat (sint (of_nat C * of_nat I + of_nat J :: go_int)) = C * I + J"
    and "sint (of_nat C * of_nat I + of_nat J :: go_int) < int (R * C)"
proof -
  have less: "C * I + J < R * C"
    by (rule cell_bound [OF assms(2,3)])
  with assms(1) have "C * I + J < 2 ^ 63"
    by simp
  then have "sint (of_nat (C * I + J) :: go_int) = int (C * I + J)"
    by (rule sint_of_nat_small)
  then have eq: "sint (of_nat C * of_nat I + of_nat J :: go_int) = int (C * I + J)"
    by simp
  show "0 \<le>s (of_nat C * of_nat I + of_nat J :: go_int)"
    unfolding word_sle_eq eq by simp
  show "nat (sint (of_nat C * of_nat I + of_nat J :: go_int)) = C * I + J"
    unfolding eq by (rule nat_int)
  show "sint (of_nat C * of_nat I + of_nat J :: go_int) < int (R * C)"
    unfolding eq using less by (simp only: of_nat_less_iff)
qed

lemma get_cell:
  assumes "data m < length h" "length (h ! data m) = R * C" "R * C < 2 ^ 63"
    "cols m = of_nat C" "I < R" "J < C"
  shows "get h m (of_nat I) (of_nat J) = Some (h ! data m ! (C * I + J))"
  unfolding get_def index_def slice_def assms(4)
  using assms(1) cell_word [OF assms(3,5,6)]
  by (simp only: assms(2) if_True simp_thms)

lemma set_cell:
  assumes "data m < length h" "length (h ! data m) = R * C" "R * C < 2 ^ 63"
    "cols m = of_nat C" "I < R" "J < C"
  shows "set_m h m (of_nat I) (of_nat J) v = Some (h[data m := (h ! data m)[C * I + J := v]])"
  unfolding set_m_def assign_def slice_def assms(4)
  using assms(1) cell_word [OF assms(3,5,6)]
  by (simp only: assms(2) if_True simp_thms)

lemma valid_length:
  assumes "valid h m"
  shows "length (h ! data m) = nat (sint (rows m)) * nat (sint (cols m))"
proof -
  from assms have "0 \<le> sint (rows m)" "0 \<le> sint (cols m)"
    and "int (length (h ! data m)) = sint (rows m) * sint (cols m)"
    by (simp_all add: valid_def word_sle_eq)
  then show ?thesis
    by (metis nat_int nat_mult_distrib)
qed

lemma in_range_nat:
  assumes "in_range m i j"
  shows "i = of_nat (nat (sint i))" "j = of_nat (nat (sint j))"
    "nat (sint i) < nat (sint (rows m))" "nat (sint j) < nat (sint (cols m))"
  using assms by (simp_all add: in_range_def word_sle_eq word_sless_alt)

section \<open>In-place passes over a matrix\<close>

lemma upd_upto_0: "upd_upto h a g 0 = h"
  by (simp add: upd_upto_def map_nth)

lemma upd_upto_all:
  assumes "length (h ! a) \<le> k"
  shows "upd_upto h a g k = h[a := map g [0..<length (h ! a)]]"
proof -
  have "map (\<lambda>p. if p < k then g p else h ! a ! p) [0..<length (h ! a)] = map g [0..<length (h ! a)]"
    using assms by (intro map_cong) auto
  then show ?thesis by (simp only: upd_upto_def)
qed

lemma upd_upto_Suc:
  assumes "a < length h" "k < length (h ! a)"
  shows "(upd_upto h a g k)[a := (upd_upto h a g k ! a)[k := g k]] = upd_upto h a g (Suc k)"
proof -
  have "(map (\<lambda>p. if p < k then g p else h ! a ! p) [0..<length (h ! a)])[k := g k]
      = map (\<lambda>p. if p < Suc k then g p else h ! a ! p) [0..<length (h ! a)]"
    using assms(2) by (intro nth_equalityI) (auto simp: nth_list_update less_Suc_eq)
  then show ?thesis
    using assms(1) by (simp add: upd_upto_def)
qed

lemma upd_upto_nth_same:
  "a < length h \<Longrightarrow> p < length (h ! a) \<Longrightarrow>
     upd_upto h a g k ! a ! p = (if p < k then g p else h ! a ! p)"
  by (simp add: upd_upto_def)

lemma upd_upto_nth_other: "b \<noteq> a \<Longrightarrow> upd_upto h a g k ! b = h ! b"
  by (simp add: upd_upto_def)

lemma upd_upto_length: "length (upd_upto h a g k) = length h"
  by (simp add: upd_upto_def)

lemma upd_upto_length_nth: "length (upd_upto h a g k ! b) = length (h ! b)"
  by (cases "b = a"; cases "a < length h") (simp_all add: upd_upto_def list_update_beyond)

text \<open>Reading any matrix of the same shape while the receiver is being updated: the
  cell at the current position still holds its old value, also when both share storage.\<close>

lemma get_upd_upto:
  assumes "data m < length h" "length (h ! data m) = R * C" "R * C < 2 ^ 63"
    "cols m = of_nat C" "I < R" "J < C"
    and "length (h ! a) = R * C"
  shows "get (upd_upto h a g (C * I + J)) m (of_nat I) (of_nat J) = Some (h ! data m ! (C * I + J))"
proof -
  have "get (upd_upto h a g (C * I + J)) m (of_nat I) (of_nat J)
      = Some (upd_upto h a g (C * I + J) ! data m ! (C * I + J))"
    using assms by (intro get_cell [where R = R]) (simp_all add: upd_upto_length upd_upto_length_nth)
  moreover have "upd_upto h a g (C * I + J) ! data m ! (C * I + J) = h ! data m ! (C * I + J)"
  proof (cases "data m = a")
    case True
    then show ?thesis
      using assms(1,2) cell_bound [OF assms(5,6)] by (simp add: upd_upto_nth_same)
  next
    case False
    then show ?thesis by (simp add: upd_upto_nth_other)
  qed
  ultimately show ?thesis by simp
qed

lemma set_upd_upto:
  assumes "data m < length h" "length (h ! data m) = R * C" "R * C < 2 ^ 63"
    "cols m = of_nat C" "I < R" "J < C"
  shows "set_m (upd_upto h (data m) g (C * I + J)) m (of_nat I) (of_nat J) (g (C * I + J))
      = Some (upd_upto h (data m) g (Suc (C * I + J)))"
proof -
  have "set_m (upd_upto h (data m) g (C * I + J)) m (of_nat I) (of_nat J) (g (C * I + J))
      = Some ((upd_upto h (data m) g (C * I + J))
          [data m := (upd_upto h (data m) g (C * I + J) ! data m)[C * I + J := g (C * I + J)]])"
    using assms by (intro set_cell [where R = R]) (simp_all add: upd_upto_length upd_upto_length_nth)
  then show ?thesis
    using assms(1,2) cell_bound [OF assms(5,6)] by (simp add: upd_upto_Suc)
qed

lemma valid_nat:
  assumes "valid h m"
  shows "rows m = of_nat (nat (sint (rows m)))" "cols m = of_nat (nat (sint (cols m)))"
    "nat (sint (rows m)) * nat (sint (cols m)) < 2 ^ 63" "data m < length h"
    "0 \<le>s rows m" "0 \<le>s cols m"
  using assms valid_length [OF assms] by (simp_all add: valid_def of_nat_sint_nonneg)

lemma inplace_loop:
  assumes v: "valid h m"
    and step: "\<And>I J. I < nat (sint (rows m)) \<Longrightarrow> J < nat (sint (cols m)) \<Longrightarrow>
       body (of_nat I) (of_nat J) (upd_upto h (data m) g (nat (sint (cols m)) * I + J))
         = Some (upd_upto h (data m) g (Suc (nat (sint (cols m)) * I + J)))"
  shows "for_loop 0 (rows m) (\<lambda>i. for_loop 0 (cols m) (body i)) h
      = Some (h[data m := map g [0..<length (h ! data m)]])"
proof -
  have "for_loop 0 (rows m) (\<lambda>i. for_loop 0 (cols m) (body i)) (upd_upto h (data m) g 0)
      = Some (upd_upto h (data m) g (nat (sint (rows m)) * nat (sint (cols m))))"
    using valid_nat(5,6) [OF v] step by (rule nested_for_loop)
  then show ?thesis
    by (simp add: upd_upto_0 upd_upto_all valid_length [OF v])
qed

lemma pos_less:
  assumes "valid h m" "in_range m i j"
  shows "pos m i j < length (h ! data m)"
  unfolding pos_def valid_length [OF assms(1)]
  using in_range_nat(3,4) [OF assms(2)] by (rule cell_bound)

lemma get_valid:
  assumes "valid h m" "in_range m i j"
  shows "get h m i j = Some (h ! data m ! pos m i j)"
proof -
  have "get h m (of_nat (nat (sint i))) (of_nat (nat (sint j))) = Some (h ! data m ! pos m i j)"
    unfolding pos_def
    using valid_nat(4) [OF assms(1)] valid_length [OF assms(1)] valid_nat(3) [OF assms(1)]
      valid_nat(2) [OF assms(1)] in_range_nat(3,4) [OF assms(2)]
    by (rule get_cell)
  then show ?thesis
    using in_range_nat(1,2) [OF assms(2)] by simp
qed

lemma set_valid:
  assumes "valid h m" "in_range m i j"
  shows "set_m h m i j v = Some (h[data m := (h ! data m)[pos m i j := v]])"
proof -
  have "set_m h m (of_nat (nat (sint i))) (of_nat (nat (sint j))) v
      = Some (h[data m := (h ! data m)[pos m i j := v]])"
    unfolding pos_def
    using valid_nat(4) [OF assms(1)] valid_length [OF assms(1)] valid_nat(3) [OF assms(1)]
      valid_nat(2) [OF assms(1)] in_range_nat(3,4) [OF assms(2)]
    by (rule set_cell)
  then show ?thesis
    using in_range_nat(1,2) [OF assms(2)] by simp
qed

lemma checkRange_in_range: "checkRange m i j = None \<longleftrightarrow> in_range m i j"
  by (auto simp: checkRange_def in_range_def word_sle_eq word_sless_alt)

lemma Get_valid:
  assumes "valid h m" "in_range m i j"
  shows "Get h m i j = Some (Inr (h ! data m ! pos m i j))"
  using assms(2) by (simp add: Get_def checkRange_in_range [THEN iffD2] get_valid [OF assms])

lemma Set_valid:
  assumes "valid h m" "in_range m i j"
  shows "Set h m i j v = Some (None, h[data m := (h ! data m)[pos m i j := v]])"
  using assms(2) by (simp add: Set_def checkRange_in_range [THEN iffD2] set_valid [OF assms])

lemma Addn_result:
  assumes "valid h m"
  shows "Addn h m n = Some (h[data m := map (\<lambda>p. h ! data m ! p + n) [0..<length (h ! data m)]])"
  unfolding Addn_def
proof (rule inplace_loop [OF assms])
  fix I J
  assume IJ: "I < nat (sint (rows m))" "J < nat (sint (cols m))"
  let ?g = "\<lambda>p. h ! data m ! p + n"
  let ?k = "nat (sint (cols m)) * I + J"
  note facts = valid_nat(4) [OF assms] valid_length [OF assms] valid_nat(3) [OF assms]
    valid_nat(2) [OF assms] IJ
  have "get (upd_upto h (data m) ?g ?k) m (of_nat I) (of_nat J) = Some (h ! data m ! ?k)"
    using facts valid_length [OF assms] by (rule get_upd_upto)
  moreover have "set_m (upd_upto h (data m) ?g ?k) m (of_nat I) (of_nat J) (?g ?k)
      = Some (upd_upto h (data m) ?g (Suc ?k))"
    using facts by (rule set_upd_upto)
  ultimately show "do { v \<leftarrow> get (upd_upto h (data m) ?g ?k) m (of_nat I) (of_nat J);
        set_m (upd_upto h (data m) ?g ?k) m (of_nat I) (of_nat J) (v + n) }
      = Some (upd_upto h (data m) ?g (Suc ?k))"
    by simp
qed

lemma Scale_result:
  assumes "valid h m"
  shows "Scale h m n = Some (h[data m := map (\<lambda>p. h ! data m ! p * n) [0..<length (h ! data m)]])"
  unfolding Scale_def
proof (rule inplace_loop [OF assms])
  fix I J
  assume IJ: "I < nat (sint (rows m))" "J < nat (sint (cols m))"
  let ?g = "\<lambda>p. h ! data m ! p * n"
  let ?k = "nat (sint (cols m)) * I + J"
  note facts = valid_nat(4) [OF assms] valid_length [OF assms] valid_nat(3) [OF assms]
    valid_nat(2) [OF assms] IJ
  have "get (upd_upto h (data m) ?g ?k) m (of_nat I) (of_nat J) = Some (h ! data m ! ?k)"
    using facts valid_length [OF assms] by (rule get_upd_upto)
  moreover have "set_m (upd_upto h (data m) ?g ?k) m (of_nat I) (of_nat J) (?g ?k)
      = Some (upd_upto h (data m) ?g (Suc ?k))"
    using facts by (rule set_upd_upto)
  ultimately show "do { v \<leftarrow> get (upd_upto h (data m) ?g ?k) m (of_nat I) (of_nat J);
        set_m (upd_upto h (data m) ?g ?k) m (of_nat I) (of_nat J) (v * n) }
      = Some (upd_upto h (data m) ?g (Suc ?k))"
    by simp
qed

lemma Each_result:
  assumes "valid h m"
  shows "Each h m f = Some (h[data m := map (\<lambda>p. f (of_nat (p div nat (sint (cols m))))
      (of_nat (p mod nat (sint (cols m)))) (h ! data m ! p)) [0..<length (h ! data m)]])"
  unfolding Each_def
proof (rule inplace_loop [OF assms])
  fix I J
  assume IJ: "I < nat (sint (rows m))" "J < nat (sint (cols m))"
  let ?C = "nat (sint (cols m))"
  let ?g = "\<lambda>p. f (of_nat (p div ?C)) (of_nat (p mod ?C)) (h ! data m ! p)"
  let ?k = "?C * I + J"
  note facts = valid_nat(4) [OF assms] valid_length [OF assms] valid_nat(3) [OF assms]
    valid_nat(2) [OF assms] IJ
  have "get (upd_upto h (data m) ?g ?k) m (of_nat I) (of_nat J) = Some (h ! data m ! ?k)"
    using facts valid_length [OF assms] by (rule get_upd_upto)
  moreover have "set_m (upd_upto h (data m) ?g ?k) m (of_nat I) (of_nat J) (?g ?k)
      = Some (upd_upto h (data m) ?g (Suc ?k))"
    using facts by (rule set_upd_upto)
  moreover have "?k div ?C = I" "?k mod ?C = J"
    using IJ(2) by simp_all
  ultimately show "do { v \<leftarrow> get (upd_upto h (data m) ?g ?k) m (of_nat I) (of_nat J);
        set_m (upd_upto h (data m) ?g ?k) m (of_nat I) (of_nat J) (f (of_nat I) (of_nat J) v) }
      = Some (upd_upto h (data m) ?g (Suc ?k))"
    by simp
qed

lemma same_shape:
  "checkEqualDimentions m x = None \<longleftrightarrow> rows m = rows x \<and> cols m = cols x"
  by (simp add: checkEqualDimentions_def)

lemma Add_result:
  assumes m: "valid h m" and x: "valid h x" and eq: "rows m = rows x" "cols m = cols x"
  shows "Add h m x = Some (None, h[data m :=
      map (\<lambda>p. h ! data m ! p + h ! data x ! p) [0..<length (h ! data m)]])"
proof -
  let ?g = "\<lambda>p. h ! data m ! p + h ! data x ! p"
  have "for_loop 0 (rows m) (\<lambda>i. for_loop 0 (cols m) (\<lambda>j h. do {
          a \<leftarrow> get h m i j; b \<leftarrow> get h x i j; set_m h m i j (a + b) })) h
      = Some (h[data m := map ?g [0..<length (h ! data m)]])"
  proof (rule inplace_loop [OF m])
    fix I J
    assume IJ: "I < nat (sint (rows m))" "J < nat (sint (cols m))"
    let ?k = "nat (sint (cols m)) * I + J"
    note facts = valid_nat(4) [OF m] valid_length [OF m] valid_nat(3) [OF m]
      valid_nat(2) [OF m] IJ
    have xfacts: "data x < length h"
      "length (h ! data x) = nat (sint (rows m)) * nat (sint (cols m))"
      "cols x = of_nat (nat (sint (cols m)))"
      using valid_nat(4) [OF x] valid_length [OF x] valid_nat(2) [OF x] eq by simp_all
    have "get (upd_upto h (data m) ?g ?k) m (of_nat I) (of_nat J) = Some (h ! data m ! ?k)"
      using facts valid_length [OF m] by (rule get_upd_upto)
    moreover have "get (upd_upto h (data m) ?g ?k) x (of_nat I) (of_nat J) = Some (h ! data x ! ?k)"
      using xfacts(1,2) valid_nat(3) [OF m] xfacts(3) IJ valid_length [OF m] by (rule get_upd_upto)
    moreover have "set_m (upd_upto h (data m) ?g ?k) m (of_nat I) (of_nat J) (?g ?k)
        = Some (upd_upto h (data m) ?g (Suc ?k))"
      using facts by (rule set_upd_upto)
    ultimately show "do { a \<leftarrow> get (upd_upto h (data m) ?g ?k) m (of_nat I) (of_nat J);
          b \<leftarrow> get (upd_upto h (data m) ?g ?k) x (of_nat I) (of_nat J);
          set_m (upd_upto h (data m) ?g ?k) m (of_nat I) (of_nat J) (a + b) }
        = Some (upd_upto h (data m) ?g (Suc ?k))"
      by simp
  qed
  then show ?thesis
    using eq by (simp add: Add_def same_shape [THEN iffD2])
qed

lemma Sub_result:
  assumes m: "valid h m" and x: "valid h x" and eq: "rows m = rows x" "cols m = cols x"
  shows "Sub h m x = Some (None, h[data m :=
      map (\<lambda>p. h ! data m ! p - h ! data x ! p) [0..<length (h ! data m)]])"
proof -
  let ?g = "\<lambda>p. h ! data m ! p - h ! data x ! p"
  have "for_loop 0 (rows m) (\<lambda>i. for_loop 0 (cols m) (\<lambda>j h. do {
          a \<leftarrow> get h m i j; b \<leftarrow> get h x i j; set_m h m i j (a - b) })) h
      = Some (h[data m := map ?g [0..<length (h ! data m)]])"
  proof (rule inplace_loop [OF m])
    fix I J
    assume IJ: "I < nat (sint (rows m))" "J < nat (sint (cols m))"
    let ?k = "nat (sint (cols m)) * I + J"
    note facts = valid_nat(4) [OF m] valid_length [OF m] valid_nat(3) [OF m]
      valid_nat(2) [OF m] IJ
    have xfacts: "data x < length h"
      "length (h ! data x) = nat (sint (rows m)) * nat (sint (cols m))"
      "cols x = of_nat (nat (sint (cols m)))"
      using valid_nat(4) [OF x] valid_length [OF x] valid_nat(2) [OF x] eq by simp_all
    have "get (upd_upto h (data m) ?g ?k) m (of_nat I) (of_nat J) = Some (h ! data m ! ?k)"
      using facts valid_length [OF m] by (rule get_upd_upto)
    moreover have "get (upd_upto h (data m) ?g ?k) x (of_nat I) (of_nat J) = Some (h ! data x ! ?k)"
      using xfacts(1,2) valid_nat(3) [OF m] xfacts(3) IJ valid_length [OF m] by (rule get_upd_upto)
    moreover have "set_m (upd_upto h (data m) ?g ?k) m (of_nat I) (of_nat J) (?g ?k)
        = Some (upd_upto h (data m) ?g (Suc ?k))"
      using facts by (rule set_upd_upto)
    ultimately show "do { a \<leftarrow> get (upd_upto h (data m) ?g ?k) m (of_nat I) (of_nat J);
          b \<leftarrow> get (upd_upto h (data m) ?g ?k) x (of_nat I) (of_nat J);
          set_m (upd_upto h (data m) ?g ?k) m (of_nat I) (of_nat J) (a - b) }
        = Some (upd_upto h (data m) ?g (Suc ?k))"
      by simp
  qed
  then show ?thesis
    using eq by (simp add: Sub_def same_shape [THEN iffD2])
qed

section \<open>Allocation: \<open>New\<close> and \<open>Clone\<close>\<close>

lemma sint_mult_small:
  fixes r c :: go_int
  assumes "0 \<le>s r" "0 \<le>s c" "sint r * sint c < 2 ^ 63"
  shows "sint (r * c) = sint r * sint c"
proof -
  have "0 \<le> sint r * sint c"
    using assms(1,2) by (simp add: word_sle_eq)
  then have "- (2 ^ 63) \<le> sint r * sint c"
    by simp
  then have "signed_take_bit 63 (sint r * sint c) = sint r * sint c"
    using assms(3) by (rule signed_take_bit_int_eq_self)
  then show ?thesis
    by (simp add: sint_word_mult)
qed

lemma make_product:
  fixes r c :: go_int
  assumes "0 \<le>s r" "0 \<le>s c" "nat (sint r) * nat (sint c) < 2 ^ 63"
    and "nat (sint r) * nat (sint c) \<le> maxlen"
  shows "make maxlen h (r * c) = Some (length h, h @ [replicate (nat (sint r) * nat (sint c)) 0])"
proof -
  have nn: "0 \<le> sint r" "0 \<le> sint c"
    using assms(1,2) by (simp_all add: word_sle_eq)
  have "int (nat (sint r) * nat (sint c)) < 2 ^ 63"
    using assms(3) by (metis of_nat_less_iff of_nat_numeral of_nat_power)
  then have "sint r * sint c < 2 ^ 63"
    using nn by simp
  then have eq: "sint (r * c) = sint r * sint c"
    using assms(1,2) by (intro sint_mult_small)
  have "nat (sint r * sint c) = nat (sint r) * nat (sint c)"
    using nn by (simp add: nat_mult_distrib)
  moreover have "\<not> sint r * sint c < 0"
    using nn by (simp add: not_less)
  moreover have "\<not> int maxlen < sint r * sint c"
    using assms(4) nn by (simp add: not_less nat_mult_distrib [symmetric] nat_le_iff)
  ultimately show ?thesis
    by (simp add: make_def word_sless_alt eq)
qed

lemma New_result:
  fixes r c :: go_int
  assumes "0 \<le>s r" "0 \<le>s c" "sint r * sint c < 2 ^ 63" "sint r * sint c \<le> int maxlen"
  shows "New maxlen h r c = Some (Inr \<lparr>rows = r, cols = c, data = length h\<rparr>,
      h @ [replicate (nat (sint r) * nat (sint c)) 0])"
proof -
  have nn: "0 \<le> sint r" "0 \<le> sint c"
    using assms(1,2) by (simp_all add: word_sle_eq)
  then have "int (nat (sint r) * nat (sint c)) < 2 ^ 63"
    using assms(3) by simp
  then have "nat (sint r) * nat (sint c) < 2 ^ 63"
    by (metis of_nat_less_iff of_nat_numeral of_nat_power)
  moreover have "nat (sint r) * nat (sint c) \<le> maxlen"
    using assms(4) nn by (simp add: nat_mult_distrib [symmetric] nat_le_iff)
  ultimately have "make maxlen h (r * c)
      = Some (length h, h @ [replicate (nat (sint r) * nat (sint c)) 0])"
    using assms(1,2) by (intro make_product)
  then show ?thesis
    using nn by (simp add: New_def word_sless_alt)
qed

lemma fits_length:
  assumes "valid h m" "fits maxlen h m"
  shows "nat (sint (rows m)) * nat (sint (cols m)) \<le> maxlen"
  using assms(2) valid_nat(4) [OF assms(1)] valid_length [OF assms(1)]
  by (simp add: fits_def slice_def)

lemma Clone_result:
  assumes "valid h m" "fits maxlen h m"
  shows "Clone maxlen h m
      = Some (\<lparr>rows = rows m, cols = cols m, data = length h\<rparr>, h @ [h ! data m])"
proof -
  have "make maxlen h (rows m * cols m)
      = Some (length h, h @ [replicate (nat (sint (rows m)) * nat (sint (cols m))) 0])"
    using valid_nat(5,6,3) [OF assms(1)] fits_length [OF assms] by (rule make_product)
  then show ?thesis
    using valid_nat(4) [OF assms(1)] valid_length [OF assms(1)]
    by (simp add: Clone_def copy_def slice_def nth_append)
qed

section \<open>Transposition\<close>

lemma src_at: "I < R \<Longrightarrow> src R C (R * J + I) = C * I + J"
  by (simp add: src_def)

lemma src_inj:
  assumes "q < R * C" "I < R" "J < C" "src R C q = C * I + J"
  shows "q = R * J + I"
proof -
  have "q div R < C"
    using assms(1) by (simp add: less_mult_imp_div_less mult.commute)
  then have "(C * (q mod R) + q div R) div C = q mod R" "(C * (q mod R) + q div R) mod C = q div R"
    by simp_all
  moreover have "(C * I + J) div C = I" "(C * I + J) mod C = J"
    using assms(3) by simp_all
  ultimately have "q mod R = I" "q div R = J"
    using assms(4) by (simp_all add: src_def)
  then show ?thesis
    using div_mult_mod_eq [of q R] by (simp add: mult.commute)
qed

lemma src_less:
  assumes "q < R * C"
  shows "src R C q < R * C"
proof -
  have "0 < R" using assms by (cases R) simp_all
  then have "q mod R < R" by simp
  moreover have "q div R < C"
    using assms by (simp add: less_mult_imp_div_less mult.commute)
  ultimately show ?thesis
    unfolding src_def by (rule cell_bound)
qed

lemma transposed_0: "transposed xs R C 0 = replicate (R * C) 0"
  by (simp add: transposed_def map_replicate_const)

lemma transposed_all: "transposed xs R C (R * C) = map (\<lambda>q. xs ! src R C q) [0..<R * C]"
  unfolding transposed_def by (intro map_cong) (simp_all add: src_less)

lemma transposed_Suc:
  assumes "I < R" "J < C"
  shows "(transposed xs R C (C * I + J))[R * J + I := xs ! (C * I + J)]
       = transposed xs R C (Suc (C * I + J))"
proof (rule nth_equalityI)
  show "length ((transposed xs R C (C * I + J))[R * J + I := xs ! (C * I + J)])
      = length (transposed xs R C (Suc (C * I + J)))"
    by (simp add: transposed_def)
next
  fix q
  assume "q < length ((transposed xs R C (C * I + J))[R * J + I := xs ! (C * I + J)])"
  then have q: "q < R * C"
    by (simp add: transposed_def)
  show "(transposed xs R C (C * I + J))[R * J + I := xs ! (C * I + J)] ! q
      = transposed xs R C (Suc (C * I + J)) ! q"
  proof (cases "q = R * J + I")
    case True
    then show ?thesis
      using q assms(1) by (simp add: transposed_def src_at)
  next
    case False
    then have "src R C q \<noteq> C * I + J"
      using src_inj [OF q assms] by blast
    then have "src R C q < Suc (C * I + J) \<longleftrightarrow> src R C q < C * I + J"
      by auto
    then show ?thesis
      using q False by (simp add: transposed_def)
  qed
qed

lemma T_result:
  assumes v: "valid h m" and w: "fits maxlen h m"
  shows "T maxlen h m = Some (\<lparr>rows = cols m, cols = rows m, data = length h\<rparr>,
      h @ [map (\<lambda>q. h ! data m ! src (nat (sint (rows m))) (nat (sint (cols m))) q)
             [0..<nat (sint (rows m)) * nat (sint (cols m))]])"
proof -
  let ?R = "nat (sint (rows m))" and ?C = "nat (sint (cols m))"
  let ?xs = "h ! data m"
  let ?t = "\<lparr>rows = cols m, cols = rows m, data = length h\<rparr>"
  let ?F = "\<lambda>k. h @ [transposed ?xs ?R ?C k]"
  have mk: "make maxlen h (rows m * cols m) = Some (length h, ?F 0)"
    using valid_nat(5,6,3) [OF v] fits_length [OF v w] by (simp add: make_product transposed_0)
  have loop: "for_loop 0 (rows m) (\<lambda>i. for_loop 0 (cols m) (\<lambda>j h'. do {
        v \<leftarrow> get h' m i j; set_m h' ?t j i v })) (?F 0) = Some (?F (?R * ?C))"
    using valid_nat(5,6) [OF v]
  proof (rule nested_for_loop)
    fix I J
    assume IJ: "I < ?R" "J < ?C"
    let ?k = "?C * I + J"
    have len: "length (transposed ?xs ?R ?C ?k) = ?C * ?R"
      by (simp add: transposed_def mult.commute)
    have "get (?F ?k) m (of_nat I) (of_nat J) = Some (?F ?k ! data m ! ?k)"
      using valid_nat(4) [OF v] valid_length [OF v] valid_nat(3) [OF v] valid_nat(2) [OF v] IJ
      by (intro get_cell [where R = ?R]) (simp_all add: nth_append)
    then have g: "get (?F ?k) m (of_nat I) (of_nat J) = Some (?xs ! ?k)"
      using valid_nat(4) [OF v] by (simp add: nth_append)
    have "set_m (?F ?k) ?t (of_nat J) (of_nat I) (?xs ! ?k)
        = Some ((?F ?k)[data ?t := (?F ?k ! data ?t)[?R * J + I := ?xs ! ?k]])"
      using valid_nat(3) [OF v] valid_nat(1) [OF v] IJ len
      by (intro set_cell [where R = ?C]) (simp_all add: mult.commute)
    then have "set_m (?F ?k) ?t (of_nat J) (of_nat I) (?xs ! ?k) = Some (?F (Suc ?k))"
      using transposed_Suc [OF IJ, of ?xs] by simp
    with g show "do { v \<leftarrow> get (?F ?k) m (of_nat I) (of_nat J);
          set_m (?F ?k) ?t (of_nat J) (of_nat I) v } = Some (?F (Suc ?k))"
      by simp
  qed
  show ?thesis
    by (simp add: T_def mk loop transposed_all)
qed

section \<open>The dot product\<close>

lemma get_elem:
  assumes "valid h m" "I < nat (sint (rows m))" "J < nat (sint (cols m))"
  shows "get h m (of_nat I) (of_nat J) = Some (elem h m I J)"
  unfolding elem_def
  using valid_nat(4) [OF assms(1)] valid_length [OF assms(1)] valid_nat(3) [OF assms(1)]
    valid_nat(2) [OF assms(1)] assms(2,3)
  by (rule get_cell)

lemma Dot_result:
  assumes m: "valid h m" and x: "valid h x" and eq: "rows m = rows x" "cols m = cols x"
  shows "Dot h m x = Some (Inr (dot_sum h m x))"
proof -
  let ?R = "nat (sint (rows m))" and ?C = "nat (sint (cols m))"
  let ?row = "\<lambda>r i. foldl (\<lambda>r j. r + elem h m i j * elem h x i j) r [0..<?C]"
  let ?body = "\<lambda>i j r. do { a \<leftarrow> get h m i j; b \<leftarrow> get h x i j; Some (r + a * b) }"
  let ?F = "\<lambda>I. foldl ?row 0 [0..<I]"
  have inner: "for_loop 0 (cols m) (?body (of_nat I)) (?F I) = Some (?F (Suc I))"
    if I: "I < ?R" for I
  proof -
    let ?G = "\<lambda>J. foldl (\<lambda>r j. r + elem h m I j * elem h x I j) (?F I) [0..<J]"
    have "for_loop (of_nat 0) (of_nat ?C) (?body (of_nat I)) (?G 0) = Some (?G ?C)"
    proof (rule for_loop_steps)
      show "?C < 2 ^ 63" by (rule nat_sint_bound)
      show "0 \<le> ?C" by simp
    next
      fix J
      assume "J < ?C"
      then have "get h m (of_nat I) (of_nat J) = Some (elem h m I J)"
        and "get h x (of_nat I) (of_nat J) = Some (elem h x I J)"
        using I eq by (simp_all add: get_elem [OF m] get_elem [OF x])
      then show "?body (of_nat I) (of_nat J) (?G J) = Some (?G (Suc J))"
        by simp
    qed
    then show ?thesis
      using valid_nat(2) [OF m] by simp
  qed
  have "for_loop (of_nat 0) (of_nat ?R) (\<lambda>i. for_loop 0 (cols m) (?body i)) (?F 0) = Some (?F ?R)"
    using nat_sint_bound inner by (intro for_loop_steps) simp_all
  then have "for_loop 0 (rows m) (\<lambda>i. for_loop 0 (cols m) (?body i)) 0 = Some (dot_sum h m x)"
    using valid_nat(1) [OF m] by (simp add: dot_sum_def)
  then show ?thesis
    using eq by (simp add: Dot_def same_shape [THEN iffD2])
qed

lemma foldl_plus_sum:
  fixes a :: "'a::comm_monoid_add"
  shows "foldl (\<lambda>r j. r + g j) a [0..<n] = a + (\<Sum>j<n. g j)"
  by (induction n) (simp_all add: add.assoc)

lemma dot_sum_exact:
  fixes h :: "'a::semiring_0 heap"
  shows "dot_sum h m x = (\<Sum>i<nat (sint (rows m)). \<Sum>j<nat (sint (cols m)). elem h m i j * elem h x i j)"
proof -
  have "foldl (\<lambda>r i. foldl (\<lambda>r j. r + elem h m i j * elem h x i j) r [0..<C]) a [0..<R]
      = a + (\<Sum>i<R. \<Sum>j<C. elem h m i j * elem h x i j)" for a R C
    by (induction R) (simp_all add: foldl_plus_sum add.assoc)
  then show ?thesis
    by (simp add: dot_sum_def)
qed

section \<open>Bounds of \<open>Get\<close> and \<open>Set\<close>\<close>

lemma Get_Inr_in_range: "Get h m i j = Some (Inr a) \<Longrightarrow> in_range m i j"
  by (cases "checkRange m i j") (simp_all add: Get_def checkRange_in_range [symmetric])

lemma Set_None_in_range: "Set h m i j v = Some (None, h') \<Longrightarrow> in_range m i j"
  by (cases "checkRange m i j") (simp_all add: Set_def checkRange_in_range [symmetric])

text \<open>
  Claim C2, amended. For a matrix of shape \<open>(r, c)\<close> that satisfies the data-model
  invariant (\<open>valid\<close>: non-negative dimensions and \<open>len(data) = r * c\<close>) and all \<open>i\<close>,
  \<open>j\<close>: \<open>Get(i, j)\<close> and \<open>Set(i, j, v)\<close> succeed if and only if \<open>0 \<le> i < r\<close> and
  \<open>0 \<le> j < c\<close>; with a negative index they return \<open>NegativeIndex\<close>; with non-negative indices and \<open>i \<ge> r\<close> or
  \<open>j \<ge> c\<close> they return \<open>IndexOutOfRange\<close>. The check comes before the storage is touched:
  a failing \<open>Set\<close> leaves the store as it was, and neither failure depends on the storage.
\<close>

theorem Get_Set_bounds:
  "(valid h m \<and> in_range m i j \<longrightarrow>
      (\<exists>a. Get h m i j = Some (Inr a)) \<and> (\<exists>h'. Set h m i j v = Some (None, h')))
   \<and> (i <s 0 \<or> j <s 0 \<longrightarrow>
      Get h m i j = Some (Inl (NegativeIndex i j))
      \<and> Set h m i j v = Some (Some (NegativeIndex i j), h))
   \<and> (0 \<le>s i \<and> 0 \<le>s j \<and> (rows m \<le>s i \<or> cols m \<le>s j) \<longrightarrow>
      Get h m i j = Some (Inl (IndexOutOfRange i j (rows m - 1) (cols m - 1)))
      \<and> Set h m i j v = Some (Some (IndexOutOfRange i j (rows m - 1) (cols m - 1)), h))
   \<and> ((\<exists>a. Get h m i j = Some (Inr a)) \<or> (\<exists>h'. Set h m i j v = Some (None, h')) \<longrightarrow>
      in_range m i j)"
proof (intro conjI impI)
  assume "valid h m \<and> in_range m i j"
  then show "\<exists>a. Get h m i j = Some (Inr a)" and "\<exists>h'. Set h m i j v = Some (None, h')"
    by (simp_all add: Get_valid Set_valid)
next
  assume "i <s 0 \<or> j <s 0"
  then show "Get h m i j = Some (Inl (NegativeIndex i j))"
    and "Set h m i j v = Some (Some (NegativeIndex i j), h)"
    by (simp_all add: Get_def Set_def checkRange_def)
next
  assume "0 \<le>s i \<and> 0 \<le>s j \<and> (rows m \<le>s i \<or> cols m \<le>s j)"
  then have "checkRange m i j = Some (IndexOutOfRange i j (rows m - 1) (cols m - 1))"
    by (auto simp: checkRange_def word_sle_eq word_sless_alt)
  then show "Get h m i j = Some (Inl (IndexOutOfRange i j (rows m - 1) (cols m - 1)))"
    and "Set h m i j v = Some (Some (IndexOutOfRange i j (rows m - 1) (cols m - 1)), h)"
    by (simp_all add: Get_def Set_def)
next
  assume "(\<exists>a. Get h m i j = Some (Inr a)) \<or> (\<exists>h'. Set h m i j v = Some (None, h'))"
  then show "in_range m i j"
    by (auto dest: Get_Inr_in_range Set_None_in_range)
qed

text \<open>The \<open>2 \<times> 3\<close> matrix \<open>[[1, 2, 3], [4, 5, 6]]\<close>: cell \<open>(1, 2)\<close> is read and
  written, \<open>(-1, 2)\<close> and \<open>(1, 3)\<close> are refused.\<close>

theorem Get_Set_bounds_witness:
  "valid [[1, 2, 3, 4, 5, 6 :: real]] \<lparr>rows = 2, cols = 3, data = 0\<rparr>
   \<and> in_range \<lparr>rows = 2, cols = 3, data = 0\<rparr> 1 2
   \<and> Get [[1, 2, 3, 4, 5, 6 :: real]] \<lparr>rows = 2, cols = 3, data = 0\<rparr> 1 2 = Some (Inr 6)
   \<and> Set [[1, 2, 3, 4, 5, 6 :: real]] \<lparr>rows = 2, cols = 3, data = 0\<rparr> 1 2 9
       = Some (None, [[1, 2, 3, 4, 5, 9]])
   \<and> Get [[1, 2, 3, 4, 5, 6 :: real]] \<lparr>rows = 2, cols = 3, data = 0\<rparr> (- 1) 2
       = Some (Inl (NegativeIndex (- 1) 2))
   \<and> Set [[1, 2, 3, 4, 5, 6 :: real]] \<lparr>rows = 2, cols = 3, data = 0\<rparr> 1 3 9
       = Some (Some (IndexOutOfRange 1 3 1 2), [[1, 2, 3, 4, 5, 6]])"
proof -
  let ?h = "[[1, 2, 3, 4, 5, 6 :: real]]" and ?m = "\<lparr>rows = 2, cols = 3, data = 0\<rparr>"
  have v: "valid ?h ?m"
    by (simp add: valid_def word_sle_eq)
  have r: "in_range ?m 1 2"
    by (simp add: in_range_def word_sle_eq word_sless_alt)
  have neg: "(- 1 :: go_int) <s 0 \<or> (2 :: go_int) <s 0"
    by (simp add: word_sless_alt)
  have out: "0 \<le>s (1 :: go_int) \<and> 0 \<le>s (3 :: go_int) \<and> (rows ?m \<le>s 1 \<or> cols ?m \<le>s 3)"
    by (simp add: word_sle_eq)
  from Get_Set_bounds [of ?h ?m 1 2 9] v r
  obtain a h' where "Get ?h ?m 1 2 = Some (Inr a)" "Set ?h ?m 1 2 9 = Some (None, h')"
    by blast
  moreover have "Get ?h ?m 1 2 = Some (Inr 6)"
    by (simp add: Get_def checkRange_def get_def index_def slice_def word_sle_eq word_sless_alt)
  moreover have "Set ?h ?m 1 2 9 = Some (None, [[1, 2, 3, 4, 5, 9]])"
    by (simp add: Set_def checkRange_def set_m_def assign_def slice_def word_sle_eq word_sless_alt)
  moreover from Get_Set_bounds [of ?h ?m "- 1" 2 9] neg
  have "Get ?h ?m (- 1) 2 = Some (Inl (NegativeIndex (- 1) 2))"
    by blast
  moreover from Get_Set_bounds [of ?h ?m 1 3 9] out
  have "Set ?h ?m 1 3 9 = Some (Some (IndexOutOfRange 1 3 1 2), ?h)"
    by simp
  ultimately show ?thesis
    using v r by simp
qed

text \<open>
  Claim C2 as stated, for every matrix, fails on a matrix that \<open>New\<close> returns after its
  product has wrapped: \<open>New((1 << 61) + 1, 8)\<close> allocates \<open>8\<close> cells, and on it the
  in-range \<open>Get(1, 0)\<close> and \<open>Set(1, 0, 9)\<close> pass the range check and panic at index
  \<open>8\<close>.
\<close>

theorem Get_Set_overflowed_counterexample:
  "New (2 ^ 45) ([] :: real heap) (2 ^ 61 + 1) 8
     = Some (Inr \<lparr>rows = 2 ^ 61 + 1, cols = 8, data = 0\<rparr>, [[0, 0, 0, 0, 0, 0, 0, 0]])
   \<and> in_range \<lparr>rows = 2 ^ 61 + 1, cols = 8, data = 0\<rparr> 1 0
   \<and> Get [[0, 0, 0, 0, 0, 0, 0, 0 :: real]] \<lparr>rows = 2 ^ 61 + 1, cols = 8, data = 0\<rparr> 1 0 = None
   \<and> Set [[0, 0, 0, 0, 0, 0, 0, 0 :: real]] \<lparr>rows = 2 ^ 61 + 1, cols = 8, data = 0\<rparr> 1 0 9 = None"
  by (simp add: New_def make_def replicate_numeral in_range_def Get_def Set_def checkRange_def
      get_def set_m_def index_def assign_def slice_def word_sless_alt word_sle_eq)

section \<open>Failures do not mutate\<close>

text \<open>
  Claim C7. When a fallible operation returns a validation failure, nothing has been
  written: the store after the call is the store before it, so the receiver and the
  argument keep their dimensions and element values. \<open>New\<close>, \<open>Set\<close>, \<open>Add\<close> and \<open>Sub\<close>
  return the store they leave; \<open>Get\<close> and \<open>Dot\<close> contain no write at all and return only
  their value.
\<close>

theorem failure_leaves_store:
  fixes h :: "'a::{zero,plus,minus} heap"
  shows "(New maxlen h r c = Some (Inl e, h') \<longrightarrow> h' = h)
   \<and> (Set h m i j v = Some (Some e, h') \<longrightarrow> h' = h)
   \<and> (Add h m x = Some (Some e, h') \<longrightarrow> h' = h)
   \<and> (Sub h m x = Some (Some e, h') \<longrightarrow> h' = h)"
proof (intro conjI impI)
  assume "New maxlen h r c = Some (Inl e, h')"
  then show "h' = h"
    by (auto simp: New_def split: if_splits bind_splits)
next
  assume "Set h m i j v = Some (Some e, h')"
  then show "h' = h"
    by (auto simp: Set_def split: option.splits bind_splits)
next
  assume "Add h m x = Some (Some e, h')"
  then show "h' = h"
    by (auto simp: Add_def split: option.splits bind_splits)
next
  assume "Sub h m x = Some (Some e, h')"
  then show "h' = h"
    by (auto simp: Sub_def split: option.splits bind_splits)
qed

text \<open>A negative dimension, a row index past the end, and a \<open>2 \<times> 3\<close> matrix against a
  \<open>3 \<times> 2\<close> one.\<close>

theorem failure_leaves_store_witness:
  "New (2 ^ 45) [[1, 2, 3, 4, 5, 6 :: real], [0, 0, 0, 0, 0, 0]] (- 1) 3
     = Some (Inl (InvalidDimensions (- 1) 3), [[1, 2, 3, 4, 5, 6], [0, 0, 0, 0, 0, 0]])
   \<and> Set [[1, 2, 3, 4, 5, 6 :: real], [0, 0, 0, 0, 0, 0]] \<lparr>rows = 2, cols = 3, data = 0\<rparr> 2 0 9
     = Some (Some (IndexOutOfRange 2 0 1 2), [[1, 2, 3, 4, 5, 6], [0, 0, 0, 0, 0, 0]])
   \<and> Add [[1, 2, 3, 4, 5, 6 :: real], [0, 0, 0, 0, 0, 0]]
       \<lparr>rows = 2, cols = 3, data = 0\<rparr> \<lparr>rows = 3, cols = 2, data = 1\<rparr>
     = Some (Some (DimensionMismatch 2 3 3 2), [[1, 2, 3, 4, 5, 6], [0, 0, 0, 0, 0, 0]])
   \<and> Sub [[1, 2, 3, 4, 5, 6 :: real], [0, 0, 0, 0, 0, 0]]
       \<lparr>rows = 2, cols = 3, data = 0\<rparr> \<lparr>rows = 3, cols = 2, data = 1\<rparr>
     = Some (Some (DimensionMismatch 2 3 3 2), [[1, 2, 3, 4, 5, 6], [0, 0, 0, 0, 0, 0]])"
proof -
  let ?h = "[[1, 2, 3, 4, 5, 6 :: real], [0, 0, 0, 0, 0, 0]]"
  let ?m = "\<lparr>rows = 2, cols = 3, data = 0\<rparr>" and ?x = "\<lparr>rows = 3, cols = 2, data = 1\<rparr>"
  obtain n where n: "New (2 ^ 45) ?h (- 1) 3 = Some (Inl (InvalidDimensions (- 1) 3), n)"
    by (simp add: New_def word_sless_alt)
  obtain s where s: "Set ?h ?m 2 0 9 = Some (Some (IndexOutOfRange 2 0 1 2), s)"
    by (simp add: Set_def checkRange_def word_sless_alt word_sle_eq)
  obtain a where a: "Add ?h ?m ?x = Some (Some (DimensionMismatch 2 3 3 2), a)"
    by (simp add: Add_def checkEqualDimentions_def)
  obtain b where b: "Sub ?h ?m ?x = Some (Some (DimensionMismatch 2 3 3 2), b)"
    by (simp add: Sub_def checkEqualDimentions_def)
  have "n = ?h"
    using failure_leaves_store [of "2 ^ 45" ?h "- 1" 3 "InvalidDimensions (- 1) 3" n] n by blast
  moreover have "s = ?h"
    using failure_leaves_store [of "2 ^ 45" ?h _ _ "IndexOutOfRange 2 0 1 2" s ?m 2 0 9] s by blast
  moreover have "a = ?h"
    using failure_leaves_store [of "2 ^ 45" ?h _ _ "DimensionMismatch 2 3 3 2" a ?m _ _ _ ?x] a by blast
  moreover have "b = ?h"
    using failure_leaves_store [of "2 ^ 45" ?h _ _ "DimensionMismatch 2 3 3 2" b ?m _ _ _ ?x] b by blast
  ultimately show ?thesis
    using n s a b by simp
qed

section \<open>Construction\<close>

lemma valid_New:
  fixes r c :: go_int
  assumes "0 \<le>s r" "0 \<le>s c" "sint r * sint c < 2 ^ 63"
  shows "valid (h @ [replicate (nat (sint r) * nat (sint c)) (0::'a::zero)])
           \<lparr>rows = r, cols = c, data = length h\<rparr>"
proof -
  have nn: "0 \<le> sint r" "0 \<le> sint c"
    using assms(1,2) by (simp_all add: word_sle_eq)
  then have "int (nat (sint r) * nat (sint c)) < 2 ^ 63"
    using assms(3) by simp
  then have "nat (sint r) * nat (sint c) < 2 ^ 63"
    by (metis of_nat_less_iff of_nat_numeral of_nat_power)
  then show ?thesis
    using assms(1,2) nn by (simp add: valid_def)
qed

lemma fits_New:
  fixes r c :: go_int
  assumes "0 \<le>s r" "0 \<le>s c" "sint r * sint c \<le> int maxlen"
  shows "fits maxlen (h @ [replicate (nat (sint r) * nat (sint c)) (0::'a::zero)])
           \<lparr>rows = r, cols = c, data = length h\<rparr>"
proof -
  have "0 \<le> sint r" "0 \<le> sint c"
    using assms(1,2) by (simp_all add: word_sle_eq)
  then have "nat (sint r) * nat (sint c) \<le> maxlen"
    using assms(3) by (simp add: nat_mult_distrib [symmetric] nat_le_iff)
  then show ?thesis
    by (simp add: fits_def slice_def)
qed

text \<open>
  Claim C1, amended. For all \<open>r \<ge> 0\<close> and \<open>c \<ge> 0\<close> whose product neither overflows
  \<open>int\<close> (\<open>r * c < 2 ^ 63\<close>) nor exceeds the largest length \<open>maxlen\<close> that \<open>make\<close>
  allocates, \<open>New(r, c)\<close> succeeds and returns a matrix whose \<open>Dimentions()\<close> is
  \<open>(r, c)\<close>, whose storage has length \<open>r * c\<close> and whose every cell \<open>Get(i, j)\<close>,
  \<open>0 \<le> i < r\<close>, \<open>0 \<le> j < c\<close>, is \<open>0\<close>; a product within \<open>int\<close> but beyond \<open>maxlen\<close> makes
  \<open>New\<close> panic. \<open>New\<close> returns \<open>InvalidDimensions\<close>, leaving the store alone, exactly
  when \<open>r < 0\<close> or \<open>c < 0\<close>. Zero is a valid dimension.
\<close>

theorem New_zero_filled:
  fixes h :: "'a::zero heap"
  shows "(r <s 0 \<or> c <s 0 \<longrightarrow> New maxlen h r c = Some (Inl (InvalidDimensions r c), h))
   \<and> ((\<exists>e h'. New maxlen h r c = Some (Inl e, h')) \<longrightarrow> r <s 0 \<or> c <s 0)
   \<and> (0 \<le>s r \<and> 0 \<le>s c \<and> sint r * sint c < 2 ^ 63 \<and> sint r * sint c \<le> int maxlen \<longrightarrow>
        (\<exists>m h'. New maxlen h r c = Some (Inr m, h')
          \<and> Dimentions m = (r, c)
          \<and> int (length (slice h' (data m))) = sint r * sint c
          \<and> (\<forall>i j. in_range m i j \<longrightarrow> Get h' m i j = Some (Inr 0))))
   \<and> (0 \<le>s r \<and> 0 \<le>s c \<and> sint r * sint c < 2 ^ 63 \<and> int maxlen < sint r * sint c \<longrightarrow>
        New maxlen h r c = None)"
proof (intro conjI impI)
  assume "r <s 0 \<or> c <s 0"
  then show "New maxlen h r c = Some (Inl (InvalidDimensions r c), h)"
    by (simp add: New_def)
next
  assume "\<exists>e h'. New maxlen h r c = Some (Inl e, h')"
  then show "r <s 0 \<or> c <s 0"
    by (auto simp: New_def split: if_splits bind_splits)
next
  assume a: "0 \<le>s r \<and> 0 \<le>s c \<and> sint r * sint c < 2 ^ 63 \<and> int maxlen < sint r * sint c"
  then have "sint (r * c) = sint r * sint c"
    by (simp add: sint_mult_small)
  with a show "New maxlen h r c = None"
    by (simp add: New_def make_def word_sless_alt word_sle_eq not_less)
next
  assume a: "0 \<le>s r \<and> 0 \<le>s c \<and> sint r * sint c < 2 ^ 63 \<and> sint r * sint c \<le> int maxlen"
  let ?m = "\<lparr>rows = r, cols = c, data = length h\<rparr>"
  let ?h = "h @ [replicate (nat (sint r) * nat (sint c)) (0::'a)]"
  have new: "New maxlen h r c = Some (Inr ?m, ?h)"
    using a by (simp add: New_result)
  have v: "valid ?h ?m"
    using a by (simp add: valid_New)
  have nn: "0 \<le> sint r" "0 \<le> sint c"
    using a by (simp_all add: word_sle_eq)
  have len: "int (length (slice ?h (data ?m))) = sint r * sint c"
    using nn by (simp add: slice_def)
  have cells: "Get ?h ?m i j = Some (Inr 0)" if "in_range ?m i j" for i j
    using pos_less [OF v that] by (simp add: Get_valid [OF v that])
  show "\<exists>m h'. New maxlen h r c = Some (Inr m, h')
      \<and> Dimentions m = (r, c)
      \<and> int (length (slice h' (data m))) = sint r * sint c
      \<and> (\<forall>i j. in_range m i j \<longrightarrow> Get h' m i j = Some (Inr 0))"
    using new len cells by (intro exI [of _ ?m] exI [of _ ?h]) (simp add: Dimentions_def)
qed

text \<open>\<open>New(2, 3)\<close>, \<open>New(0, 3)\<close>, \<open>New(-1, 3)\<close> and \<open>New(1 << 31, 1 << 31)\<close> on the
  empty store, with the limit \<open>2 ^ 45\<close> of a runtime whose heap addresses have 48 bits.\<close>

theorem New_zero_filled_witness:
  "0 \<le>s (2 :: go_int) \<and> 0 \<le>s (3 :: go_int) \<and> sint (2 :: go_int) * sint (3 :: go_int) < 2 ^ 63
   \<and> sint (2 :: go_int) * sint (3 :: go_int) \<le> int (2 ^ 45)
   \<and> New (2 ^ 45) ([] :: real heap) (2 ^ 31) (2 ^ 31) = None
   \<and> New (2 ^ 45) ([] :: real heap) 2 3 = Some (Inr \<lparr>rows = 2, cols = 3, data = 0\<rparr>, [[0, 0, 0, 0, 0, 0]])
   \<and> Dimentions \<lparr>rows = 2, cols = 3, data = 0\<rparr> = (2, 3)
   \<and> Get [[0, 0, 0, 0, 0, 0 :: real]] \<lparr>rows = 2, cols = 3, data = 0\<rparr> 1 2 = Some (Inr 0)
   \<and> New (2 ^ 45) ([] :: real heap) 0 3 = Some (Inr \<lparr>rows = 0, cols = 3, data = 0\<rparr>, [[]])
   \<and> New (2 ^ 45) ([] :: real heap) (- 1) 3 = Some (Inl (InvalidDimensions (- 1) 3), [])"
proof -
  let ?m = "\<lparr>rows = 2, cols = 3, data = 0\<rparr>"
  have hyp: "0 \<le>s (2 :: go_int) \<and> 0 \<le>s (3 :: go_int) \<and> sint (2 :: go_int) * sint (3 :: go_int) < 2 ^ 63
      \<and> sint (2 :: go_int) * sint (3 :: go_int) \<le> int (2 ^ 45)"
    by (simp add: word_sle_eq)
  have big: "0 \<le>s (2 ^ 31 :: go_int) \<and> 0 \<le>s (2 ^ 31 :: go_int)
      \<and> sint (2 ^ 31 :: go_int) * sint (2 ^ 31 :: go_int) < 2 ^ 63
      \<and> int (2 ^ 45) < sint (2 ^ 31 :: go_int) * sint (2 ^ 31 :: go_int)"
    by (simp add: word_sle_eq)
  from New_zero_filled [where r = "2 ^ 31" and c = "2 ^ 31" and maxlen = "2 ^ 45"
      and h = "[] :: real heap"] big
  have panic: "New (2 ^ 45) ([] :: real heap) (2 ^ 31) (2 ^ 31) = None"
    by blast
  have new: "New (2 ^ 45) ([] :: real heap) 2 3 = Some (Inr ?m, [[0, 0, 0, 0, 0, 0]])"
    by (simp add: New_def make_def word_sless_alt replicate_numeral)
  have r: "in_range ?m 1 2"
    by (simp add: in_range_def word_sle_eq word_sless_alt)
  from New_zero_filled [where r = 2 and c = 3 and maxlen = "2 ^ 45" and h = "[] :: real heap"] hyp
  obtain m h' where "New (2 ^ 45) ([] :: real heap) 2 3 = Some (Inr m, h')"
    and "\<forall>i j. in_range m i j \<longrightarrow> Get h' m i j = Some (Inr 0)"
    by blast
  with new r have cell: "Get [[0, 0, 0, 0, 0, 0 :: real]] ?m 1 2 = Some (Inr 0)"
    by simp
  have neg: "(- 1 :: go_int) <s 0 \<or> (3 :: go_int) <s 0"
    by (simp add: word_sless_alt)
  from New_zero_filled [where r = "- 1" and c = 3 and maxlen = "2 ^ 45" and h = "[] :: real heap"] neg
  have fail: "New (2 ^ 45) ([] :: real heap) (- 1) 3 = Some (Inl (InvalidDimensions (- 1) 3), [])"
    by blast
  have empty: "New (2 ^ 45) ([] :: real heap) 0 3 = Some (Inr \<lparr>rows = 0, cols = 3, data = 0\<rparr>, [[]])"
    by (simp add: New_def make_def word_sless_alt)
  show ?thesis
    using hyp panic new cell fail empty by (simp add: Dimentions_def)
qed

text \<open>
  Claim C1 as stated, for all \<open>r, c \<ge> 0\<close>, fails: \<open>2 ^ 32 * 2 ^ 32\<close> wraps to \<open>0\<close>, so
  \<open>New(1 << 32, 1 << 32)\<close> returns a matrix of these dimensions over storage of length
  \<open>0\<close>, and \<open>Get(0, 0)\<close> passes the range check and panics on the empty slice.
\<close>

theorem New_overflow_counterexample:
  "0 \<le>s (2 ^ 32 :: go_int)
   \<and> New (2 ^ 45) ([] :: real heap) (2 ^ 32) (2 ^ 32)
       = Some (Inr \<lparr>rows = 2 ^ 32, cols = 2 ^ 32, data = 0\<rparr>, [[]])
   \<and> in_range \<lparr>rows = 2 ^ 32, cols = 2 ^ 32, data = 0\<rparr> 0 0
   \<and> Get ([[]] :: real heap) \<lparr>rows = 2 ^ 32, cols = 2 ^ 32, data = 0\<rparr> 0 0 = None
   \<and> length (slice ([[]] :: real heap) 0) = 0"
  by (simp add: New_def make_def Get_def checkRange_def get_def index_def slice_def in_range_def
      word_sless_alt word_sle_eq)

section \<open>Elementwise addition\<close>


lemma valid_update:
  assumes "valid h y" "length ys = length (h ! a)"
  shows "valid (h[a := ys]) y"
  using assms by (cases "data y = a") (simp_all add: valid_def)

lemma Get_after_update:
  assumes v: "valid h m" and r: "in_range m i j" and len: "length ys = length (h ! data m)"
  shows "Get (h[data m := ys]) m i j = Some (Inr (ys ! pos m i j))"
proof -
  have "valid (h[data m := ys]) m"
    using v len by (rule valid_update)
  then have "Get (h[data m := ys]) m i j = Some (Inr (h[data m := ys] ! data m ! pos m i j))"
    using r by (rule Get_valid)
  then show ?thesis
    using valid_nat(4) [OF v] by simp
qed




text \<open>
  Claim C10, amended. For every matrix \<open>m\<close> that satisfies the data-model invariant
  (\<open>valid\<close>), \<open>m.Add(m)\<close> succeeds and leaves in every cell its previous value added
  to itself: each cell is read, as receiver and as argument, before its own write, and no other write touches it.
\<close>

theorem Add_self_doubles:
  fixes h :: "'a::plus heap"
  assumes "valid h m"
  shows "\<exists>h'. Add h m m = Some (None, h')
      \<and> (\<forall>i j. in_range m i j \<longrightarrow>
            (\<exists>a. Get h m i j = Some (Inr a) \<and> Get h' m i j = Some (Inr (a + a))))"
proof -
  let ?ys = "map (\<lambda>p. h ! data m ! p + h ! data m ! p) [0..<length (h ! data m)]"
  let ?h = "h[data m := ?ys]"
  have res: "Add h m m = Some (None, ?h)"
    using assms by (simp add: Add_result)
  have cells: "\<exists>a. Get h m i j = Some (Inr a) \<and> Get ?h m i j = Some (Inr (a + a))"
    if r: "in_range m i j" for i j
  proof -
    have "Get ?h m i j = Some (Inr (?ys ! pos m i j))"
      using assms r by (intro Get_after_update) simp_all
    then have "Get ?h m i j = Some (Inr (h ! data m ! pos m i j + h ! data m ! pos m i j))"
      using pos_less [OF assms r] by simp
    then show ?thesis
      using Get_valid [OF assms r] by simp
  qed
  show ?thesis
  proof (intro exI [of _ ?h] conjI allI impI)
    show "Add h m m = Some (None, ?h)"
      by (rule res)
  next
    fix i j
    assume "in_range m i j"
    then show "\<exists>a. Get h m i j = Some (Inr a) \<and> Get ?h m i j = Some (Inr (a + a))"
      by (rule cells)
  qed
qed

text \<open>\<open>[[1, 2], [3, 4]]\<close> added to itself.\<close>

theorem Add_self_doubles_witness:
  "valid [[1, 2, 3, 4 :: real]] \<lparr>rows = 2, cols = 2, data = 0\<rparr>
   \<and> Add [[1, 2, 3, 4 :: real]] \<lparr>rows = 2, cols = 2, data = 0\<rparr> \<lparr>rows = 2, cols = 2, data = 0\<rparr>
       = Some (None, [[2, 4, 6, 8]])
   \<and> Get [[1, 2, 3, 4 :: real]] \<lparr>rows = 2, cols = 2, data = 0\<rparr> 1 1 = Some (Inr 4)
   \<and> Get [[2, 4, 6, 8 :: real]] \<lparr>rows = 2, cols = 2, data = 0\<rparr> 1 1 = Some (Inr 8)"
proof -
  let ?h = "[[1, 2, 3, 4 :: real]]" and ?m = "\<lparr>rows = 2, cols = 2, data = 0\<rparr>"
  have v: "valid ?h ?m"
    by (simp add: valid_def word_sle_eq)
  have r: "in_range ?m 1 1"
    by (simp add: in_range_def word_sle_eq word_sless_alt)
  have g: "Get ?h ?m 1 1 = Some (Inr 4)"
    by (simp add: Get_def checkRange_def get_def index_def slice_def word_sle_eq word_sless_alt)
  have add: "Add ?h ?m ?m = Some (None, [[2, 4, 6, 8]])"
    by (simp add: Add_def checkEqualDimentions_def for_loop.simps get_def set_m_def index_def
        assign_def slice_def word_sless_alt word_sle_eq)
  from Add_self_doubles [OF v]
  obtain h' where h': "Add ?h ?m ?m = Some (None, h')"
    and cells: "\<forall>i j. in_range ?m i j \<longrightarrow>
      (\<exists>a. Get ?h ?m i j = Some (Inr a) \<and> Get h' ?m i j = Some (Inr (a + a)))"
    by auto
  from h' add have eq: "h' = [[2, 4, 6, 8]]"
    by simp
  from cells r g have "Get h' ?m 1 1 = Some (Inr 8)"
    by fastforce
  then show ?thesis
    using v add g eq by simp
qed

text \<open>
  Claim C10 as stated, for every matrix, fails on the matrix that
  \<open>New((1 << 61) + 1, 8)\<close> returns over \<open>8\<close> cells: \<open>m.Add(m)\<close> panics at cell
  \<open>(1, 0)\<close>.
\<close>

theorem Add_self_overflowed_counterexample:
  "New (2 ^ 45) ([] :: real heap) (2 ^ 61 + 1) 8
     = Some (Inr \<lparr>rows = 2 ^ 61 + 1, cols = 8, data = 0\<rparr>, [[0, 0, 0, 0, 0, 0, 0, 0]])
   \<and> Add [[0, 0, 0, 0, 0, 0, 0, 0 :: real]] \<lparr>rows = 2 ^ 61 + 1, cols = 8, data = 0\<rparr> \<lparr>rows = 2 ^ 61 + 1, cols = 8, data = 0\<rparr> = None"
  by (simp add: New_def make_def replicate_numeral Add_def checkEqualDimentions_def
      for_loop.simps get_def set_m_def index_def assign_def slice_def word_sless_alt word_sle_eq)

section \<open>New instances: \<open>T\<close> and \<open>Clone\<close>\<close>

lemma Get_same_cells:
  assumes "rows c = rows m" "cols c = cols m" "slice h' (data c) = slice h (data m)"
  shows "Get h' c i j = Get h m i j"
proof -
  have "checkRange c i j = checkRange m i j"
    using assms(1,2) by (simp add: checkRange_def)
  moreover have "get h' c i j = get h m i j"
    using assms(2,3) by (simp add: get_def index_def)
  ultimately show ?thesis
    by (simp add: Get_def cong: option.case_cong)
qed

lemma slice_append_old: "a < length h \<Longrightarrow> slice (h @ ys) a = slice h a"
  by (simp add: slice_def nth_append)

lemma slice_append_new: "slice (h @ [ys]) (length h) = ys"
  by (simp add: slice_def)

lemma valid_append: "valid h y \<Longrightarrow> valid (h @ ys) y"
  by (simp add: valid_def nth_append)


text \<open>
  Claim C4, amended. For every matrix \<open>m\<close> of shape \<open>(r, c)\<close> that satisfies the
  data-model invariant (\<open>valid\<close>: non-negative dimensions and \<open>len(data) = r * c\<close>), its
  storage being one that \<open>make\<close> can have returned, \<open>m.T()\<close> succeeds and returns a new
  matrix of shape \<open>(c, r)\<close>, on storage of its own, with \<open>m.T().Get(j, i) = m.Get(i, j)\<close>
  for all valid \<open>(i, j)\<close>; the receiver reads the same after the call as before it.
\<close>

theorem T_transposes:
  fixes h :: "'a::zero heap"
  assumes "valid h m" and "fits maxlen h m"
  shows "\<exists>t h'. T maxlen h m = Some (t, h')
      \<and> Dimentions t = (cols m, rows m)
      \<and> data t \<noteq> data m
      \<and> (\<forall>i j. in_range m i j \<longrightarrow>
            (\<exists>a. Get h m i j = Some (Inr a) \<and> Get h' t j i = Some (Inr a)))
      \<and> (\<forall>i j. Get h' m i j = Get h m i j)"
proof -
  let ?R = "nat (sint (rows m))" and ?C = "nat (sint (cols m))"
  let ?t = "\<lparr>rows = cols m, cols = rows m, data = length h\<rparr>"
  let ?ys = "map (\<lambda>q. h ! data m ! src ?R ?C q) [0..<?R * ?C]"
  let ?h = "h @ [?ys]"
  have res: "T maxlen h m = Some (?t, ?h)"
    using assms by (rule T_result)
  note assms = assms(1)
  have nn: "0 \<le> sint (rows m)" "0 \<le> sint (cols m)"
    using valid_nat(5,6) [OF assms] by (simp_all add: word_sle_eq)
  have vt: "valid ?h ?t"
    using valid_nat(3,5,6) [OF assms] nn by (simp add: valid_def mult.commute)
  have cells: "\<exists>a. Get h m i j = Some (Inr a) \<and> Get ?h ?t j i = Some (Inr a)"
    if r: "in_range m i j" for i j
  proof -
    have rt: "in_range ?t j i"
      using r by (simp add: in_range_def)
    have I: "nat (sint i) < ?R" and J: "nat (sint j) < ?C"
      using in_range_nat(3,4) [OF r] by simp_all
    have less: "?R * nat (sint j) + nat (sint i) < ?R * ?C"
      using cell_bound [OF J I] by (simp add: mult.commute)
    have "Get ?h ?t j i = Some (Inr (?h ! data ?t ! pos ?t j i))"
      using vt rt by (rule Get_valid)
    also have "?h ! data ?t ! pos ?t j i = ?ys ! (?R * nat (sint j) + nat (sint i))"
      by (simp add: pos_def)
    also have "\<dots> = h ! data m ! src ?R ?C (?R * nat (sint j) + nat (sint i))"
      using less by simp
    also have "\<dots> = h ! data m ! pos m i j"
      using I by (simp add: src_at pos_def)
    finally show ?thesis
      using Get_valid [OF assms r] by simp
  qed
  have frame: "Get ?h m i j = Get h m i j" for i j
    using valid_nat(4) [OF assms] by (intro Get_same_cells) (simp_all add: slice_append_old)
  show ?thesis
  proof (intro exI [of _ ?t] exI [of _ ?h] conjI allI impI)
    show "T maxlen h m = Some (?t, ?h)"
      by (rule res)
    show "Dimentions ?t = (cols m, rows m)"
      by (simp add: Dimentions_def)
    show "data ?t \<noteq> data m"
      using valid_nat(4) [OF assms] by simp
  next
    fix i j
    assume "in_range m i j"
    then show "\<exists>a. Get h m i j = Some (Inr a) \<and> Get ?h ?t j i = Some (Inr a)"
      by (rule cells)
  next
    fix i j
    show "Get ?h m i j = Get h m i j"
      by (rule frame)
  qed
qed

text \<open>The transpose of \<open>[[1, 2, 3], [4, 5, 6]]\<close> is \<open>[[1, 4], [2, 5], [3, 6]]\<close>.\<close>

theorem T_transposes_witness:
  "valid [[1, 2, 3, 4, 5, 6 :: real]] \<lparr>rows = 2, cols = 3, data = 0\<rparr>
   \<and> fits (2 ^ 45) [[1, 2, 3, 4, 5, 6 :: real]] \<lparr>rows = 2, cols = 3, data = 0\<rparr>
   \<and> T (2 ^ 45) [[1, 2, 3, 4, 5, 6 :: real]] \<lparr>rows = 2, cols = 3, data = 0\<rparr>
       = Some (\<lparr>rows = 3, cols = 2, data = 1\<rparr>, [[1, 2, 3, 4, 5, 6], [1, 4, 2, 5, 3, 6]])
   \<and> Dimentions \<lparr>rows = 3, cols = 2, data = 1\<rparr> = (3, 2)
   \<and> Get [[1, 2, 3, 4, 5, 6 :: real]] \<lparr>rows = 2, cols = 3, data = 0\<rparr> 1 2 = Some (Inr 6)
   \<and> Get [[1, 2, 3, 4, 5, 6 :: real], [1, 4, 2, 5, 3, 6]] \<lparr>rows = 3, cols = 2, data = 1\<rparr> 2 1
       = Some (Inr 6)
   \<and> Get [[1, 2, 3, 4, 5, 6 :: real], [1, 4, 2, 5, 3, 6]] \<lparr>rows = 2, cols = 3, data = 0\<rparr> 1 2
       = Some (Inr 6)"
proof -
  let ?h = "[[1, 2, 3, 4, 5, 6 :: real]]" and ?m = "\<lparr>rows = 2, cols = 3, data = 0\<rparr>"
  let ?t = "\<lparr>rows = 3, cols = 2, data = 1\<rparr>"
  let ?h' = "[[1, 2, 3, 4, 5, 6 :: real], [1, 4, 2, 5, 3, 6]]"
  have v: "valid ?h ?m"
    by (simp add: valid_def word_sle_eq)
  have f: "fits (2 ^ 45) ?h ?m"
    by (simp add: fits_def slice_def)
  have r: "in_range ?m 1 2"
    by (simp add: in_range_def word_sle_eq word_sless_alt)
  have g: "Get ?h ?m 1 2 = Some (Inr 6)"
    by (simp add: Get_def checkRange_def get_def index_def slice_def word_sle_eq word_sless_alt)
  have t: "T (2 ^ 45) ?h ?m = Some (?t, ?h')"
    by (simp add: T_def make_def for_loop.simps get_def set_m_def index_def
        assign_def slice_def word_sless_alt word_sle_eq replicate_numeral)
  from T_transposes [OF v f]
  obtain t' h' where t': "T (2 ^ 45) ?h ?m = Some (t', h')"
    and dims: "Dimentions t' = (cols ?m, rows ?m)"
    and cells: "\<forall>i j. in_range ?m i j \<longrightarrow>
      (\<exists>a. Get ?h ?m i j = Some (Inr a) \<and> Get h' t' j i = Some (Inr a))"
    and frame: "\<forall>i j. Get h' ?m i j = Get ?h ?m i j"
    by blast
  from t t' have eq: "t' = ?t" "h' = ?h'"
    by simp_all
  from cells r g have "Get h' t' 2 1 = Some (Inr 6)"
    by fastforce
  moreover from frame g have "Get h' ?m 1 2 = Some (Inr 6)"
    by simp
  ultimately show ?thesis
    using v f t g dims eq by simp
qed

text \<open>
  Claim C4 as stated, for every matrix and with \<open>T\<close> always succeeding, fails on the
  matrix that \<open>New((1 << 61) + 1, 8)\<close> returns over \<open>8\<close> cells: \<open>T()\<close> panics when it
  writes cell \<open>(1, 0)\<close> of the transpose.
\<close>

theorem T_overflowed_counterexample:
  "New (2 ^ 45) ([] :: real heap) (2 ^ 61 + 1) 8
     = Some (Inr \<lparr>rows = 2 ^ 61 + 1, cols = 8, data = 0\<rparr>, [[0, 0, 0, 0, 0, 0, 0, 0]])
   \<and> T (2 ^ 45) [[0, 0, 0, 0, 0, 0, 0, 0 :: real]] \<lparr>rows = 2 ^ 61 + 1, cols = 8, data = 0\<rparr> = None"
  by (simp add: New_def T_def make_def replicate_numeral for_loop.simps get_def set_m_def
      index_def assign_def slice_def word_sless_alt word_sle_eq)



section \<open>The dot product of two matrices\<close>

lemma Get_elem:
  assumes "valid h m" "in_range m i j"
  shows "Get h m i j = Some (Inr (elem h m (nat (sint i)) (nat (sint j))))"
  using Get_valid [OF assms] by (simp add: elem_def pos_def)

text \<open>
  Claim C5, amended. \<open>m.Dot(x)\<close> returns \<open>DimensionMismatch\<close> when the shapes differ;
  for matrices of one shape that satisfy the data-model invariant (\<open>valid\<close>) it returns
  the sum over all cells \<open>(i, j)\<close> of \<open>m(i, j) * x(i, j)\<close>, accumulated from \<open>0\<close> row by row (\<open>dot_sum\<close>, over the values
  that \<open>Get\<close> reads), which in exact arithmetic is the double sum whatever the order.
  For \<open>A = [[1, 2], [3, 4]]\<close> and \<open>B = [[5, 6], [7, 8]]\<close>, \<open>A.Dot(B) = 70\<close>.
\<close>

theorem Dot_sums_products:
  fixes h :: "'a::{zero,plus,times} heap" and k :: "'b::semiring_0 heap"
  shows "(rows m \<noteq> rows x \<or> cols m \<noteq> cols x \<longrightarrow>
        Dot h m x = Some (Inl (DimensionMismatch (rows m) (cols m) (rows x) (cols x))))
   \<and> (valid h m \<and> valid h x \<and> rows m = rows x \<and> cols m = cols x \<longrightarrow>
        Dot h m x = Some (Inr (dot_sum h m x))
        \<and> (\<forall>i j. in_range m i j \<longrightarrow>
              Get h m i j = Some (Inr (elem h m (nat (sint i)) (nat (sint j))))
              \<and> Get h x i j = Some (Inr (elem h x (nat (sint i)) (nat (sint j))))))
   \<and> (valid k m \<and> valid k x \<and> rows m = rows x \<and> cols m = cols x \<longrightarrow>
        Dot k m x = Some (Inr (\<Sum>i<nat (sint (rows m)). \<Sum>j<nat (sint (cols m)).
                                  elem k m i j * elem k x i j)))
   \<and> Dot [[1, 2, 3, 4 :: real], [5, 6, 7, 8]]
        \<lparr>rows = 2, cols = 2, data = 0\<rparr> \<lparr>rows = 2, cols = 2, data = 1\<rparr> = Some (Inr 70)"
proof (intro conjI impI allI)
  assume "rows m \<noteq> rows x \<or> cols m \<noteq> cols x"
  then show "Dot h m x = Some (Inl (DimensionMismatch (rows m) (cols m) (rows x) (cols x)))"
    by (simp add: Dot_def checkEqualDimentions_def)
next
  assume a: "valid h m \<and> valid h x \<and> rows m = rows x \<and> cols m = cols x"
  then show "Dot h m x = Some (Inr (dot_sum h m x))"
    by (simp add: Dot_result)
  fix i j
  assume r: "in_range m i j"
  with a have "in_range x i j"
    by (simp add: in_range_def)
  with a r show "Get h m i j = Some (Inr (elem h m (nat (sint i)) (nat (sint j))))"
    and "Get h x i j = Some (Inr (elem h x (nat (sint i)) (nat (sint j))))"
    by (simp_all add: Get_elem)
next
  assume "valid k m \<and> valid k x \<and> rows m = rows x \<and> cols m = cols x"
  then have "Dot k m x = Some (Inr (dot_sum k m x))"
    by (simp add: Dot_result)
  then show "Dot k m x = Some (Inr (\<Sum>i<nat (sint (rows m)). \<Sum>j<nat (sint (cols m)).
      elem k m i j * elem k x i j))"
    by (simp only: dot_sum_exact)
next
  show "Dot [[1, 2, 3, 4 :: real], [5, 6, 7, 8]]
      \<lparr>rows = 2, cols = 2, data = 0\<rparr> \<lparr>rows = 2, cols = 2, data = 1\<rparr> = Some (Inr 70)"
    by (simp add: Dot_def checkEqualDimentions_def for_loop.simps get_def index_def slice_def
        word_sless_alt word_sle_eq)
qed

text \<open>The matrices \<open>A\<close> and \<open>B\<close> of the claim, and \<open>A\<close> against a \<open>1 \<times> 4\<close> matrix.\<close>

theorem Dot_sums_products_witness:
  "valid [[1, 2, 3, 4 :: real], [5, 6, 7, 8]] \<lparr>rows = 2, cols = 2, data = 0\<rparr>
   \<and> valid [[1, 2, 3, 4 :: real], [5, 6, 7, 8]] \<lparr>rows = 2, cols = 2, data = 1\<rparr>
   \<and> dot_sum [[1, 2, 3, 4 :: real], [5, 6, 7, 8]]
        \<lparr>rows = 2, cols = 2, data = 0\<rparr> \<lparr>rows = 2, cols = 2, data = 1\<rparr> = 70
   \<and> Dot [[1, 2, 3, 4 :: real], [5, 6, 7, 8]]
        \<lparr>rows = 2, cols = 2, data = 0\<rparr> \<lparr>rows = 2, cols = 2, data = 1\<rparr>
       = Some (Inr (1 * 5 + 2 * 6 + 3 * 7 + 4 * 8))
   \<and> Get [[1, 2, 3, 4 :: real], [5, 6, 7, 8]] \<lparr>rows = 2, cols = 2, data = 0\<rparr> 1 0 = Some (Inr 3)
   \<and> Get [[1, 2, 3, 4 :: real], [5, 6, 7, 8]] \<lparr>rows = 2, cols = 2, data = 1\<rparr> 1 0 = Some (Inr 7)
   \<and> Dot [[1, 2, 3, 4 :: real], [5, 6, 7, 8]]
        \<lparr>rows = 2, cols = 2, data = 0\<rparr> \<lparr>rows = 1, cols = 4, data = 1\<rparr>
       = Some (Inl (DimensionMismatch 2 2 1 4))"
proof -
  let ?h = "[[1, 2, 3, 4 :: real], [5, 6, 7, 8]]"
  let ?m = "\<lparr>rows = 2, cols = 2, data = 0\<rparr>" and ?x = "\<lparr>rows = 2, cols = 2, data = 1\<rparr>"
  let ?y = "\<lparr>rows = 1, cols = 4, data = 1\<rparr>"
  have vm: "valid ?h ?m" and vx: "valid ?h ?x"
    by (simp_all add: valid_def word_sle_eq)
  have r: "in_range ?m 1 0"
    by (simp add: in_range_def word_sle_eq word_sless_alt)
  have sum: "dot_sum ?h ?m ?x = 70"
    by (simp add: dot_sum_def elem_def numeral_eq_Suc)
  have e: "elem ?h ?m (nat (sint (1 :: go_int))) (nat (sint (0 :: go_int))) = 3"
    "elem ?h ?x (nat (sint (1 :: go_int))) (nat (sint (0 :: go_int))) = 7"
    by (simp_all add: elem_def)
  note inst = Dot_sums_products [of ?m ?x ?h ?h]
  from inst vm vx have dot: "Dot ?h ?m ?x = Some (Inr (dot_sum ?h ?m ?x))"
    by simp
  from inst vm vx r have "Get ?h ?m 1 0 = Some (Inr (elem ?h ?m (nat (sint (1 :: go_int))) (nat (sint (0 :: go_int)))))"
    and "Get ?h ?x 1 0 = Some (Inr (elem ?h ?x (nat (sint (1 :: go_int))) (nat (sint (0 :: go_int)))))"
    by simp_all
  with e have g: "Get ?h ?m 1 0 = Some (Inr 3)" "Get ?h ?x 1 0 = Some (Inr 7)"
    by simp_all
  from Dot_sums_products [of ?m ?y ?h ?h]
  have mis: "Dot ?h ?m ?y = Some (Inl (DimensionMismatch 2 2 1 4))"
    by simp
  show ?thesis
    using vm vx sum dot g mis by simp
qed

text \<open>
  Claim C5 as stated, for all matrices of one shape, fails on two matrices that
  \<open>New((1 << 61) + 1, 8)\<close> returns over \<open>8\<close> cells each: \<open>Dot\<close> panics at cell
  \<open>(1, 0)\<close> instead of returning a sum.
\<close>

theorem Dot_overflowed_counterexample:
  "New (2 ^ 45) ([] :: real heap) (2 ^ 61 + 1) 8
     = Some (Inr \<lparr>rows = 2 ^ 61 + 1, cols = 8, data = 0\<rparr>, [[0, 0, 0, 0, 0, 0, 0, 0]])
   \<and> New (2 ^ 45) [[0, 0, 0, 0, 0, 0, 0, 0 :: real]] (2 ^ 61 + 1) 8
     = Some (Inr \<lparr>rows = 2 ^ 61 + 1, cols = 8, data = 1\<rparr>, [[0, 0, 0, 0, 0, 0, 0, 0], [0, 0, 0, 0, 0, 0, 0, 0]])
   \<and> Dot [[0, 0, 0, 0, 0, 0, 0, 0 :: real], [0, 0, 0, 0, 0, 0, 0, 0]] \<lparr>rows = 2 ^ 61 + 1, cols = 8, data = 0\<rparr> \<lparr>rows = 2 ^ 61 + 1, cols = 8, data = 1\<rparr> = None"
  by (simp add: New_def make_def replicate_numeral Dot_def checkEqualDimentions_def
      for_loop.simps get_def index_def slice_def word_sless_alt word_sle_eq)

section \<open>The invariant \<open>len(data) = rows * cols\<close>\<close>

lemma valid_Set:
  assumes "valid h m" "valid h y" "Set h m i j v = Some (e, h')"
  shows "valid h' y"
proof (cases "checkRange m i j")
  case None
  then have "in_range m i j"
    by (simp add: checkRange_in_range)
  with assms(1,3) have "h' = h[data m := (h ! data m)[pos m i j := v]]"
    by (simp add: Set_valid)
  then show ?thesis
    using assms(2) by (simp add: valid_update)
next
  case (Some err)
  with assms(2,3) show ?thesis
    by (simp add: Set_def)
qed

lemma valid_map_update:
  "valid h y \<Longrightarrow> valid (h[a := map g [0..<length (h ! a)]]) y"
  by (rule valid_update) simp_all

lemma valid_T:
  assumes "valid h m"
  shows "valid (h @ [map g [0..<nat (sint (rows m)) * nat (sint (cols m))]])
    \<lparr>rows = cols m, cols = rows m, data = length h\<rparr>"
proof -
  have "0 \<le> sint (rows m)" "0 \<le> sint (cols m)"
    using valid_nat(5,6) [OF assms] by (simp_all add: word_sle_eq)
  then show ?thesis
    using valid_nat(3,5,6) [OF assms] by (simp add: valid_def mult.commute)
qed

lemma valid_Clone:
  assumes "valid h m"
  shows "valid (h @ [h ! data m]) \<lparr>rows = rows m, cols = cols m, data = length h\<rparr>"
  using assms by (simp add: valid_def nth_append)

lemma fits_new_array:
  assumes "valid h m" "fits maxlen h m"
    and "length ys = nat (sint (rows m)) * nat (sint (cols m))"
  shows "fits maxlen (h @ [ys]) \<lparr>rows = r, cols = c, data = length h\<rparr>"
  using fits_length [OF assms(1,2)] assms(3) by (simp add: fits_def slice_def)

lemma New_returns:
  fixes h :: "'a::zero heap"
  assumes "New maxlen h r c = Some (Inr m', h')" "sint r * sint c < 2 ^ 63"
  shows "0 \<le>s r" "0 \<le>s c" "sint r * sint c \<le> int maxlen"
    "m' = \<lparr>rows = r, cols = c, data = length h\<rparr>"
    "h' = h @ [replicate (nat (sint r) * nat (sint c)) 0]"
proof -
  from assms(1) have nn: "\<not> r <s 0" "\<not> c <s 0"
    by (auto simp: New_def split: if_splits)
  then show r: "0 \<le>s r" and c: "0 \<le>s c"
    by (simp_all add: word_sle_eq word_sless_alt)
  then have eq: "sint (r * c) = sint r * sint c"
    using assms(2) by (intro sint_mult_small)
  from assms(1) nn obtain a where mk: "make maxlen h (r * c) = Some (a, h')"
    and m': "m' = \<lparr>rows = r, cols = c, data = a\<rparr>"
    by (auto simp: New_def split: bind_splits)
  from mk show le: "sint r * sint c \<le> int maxlen"
    by (auto simp: make_def eq split: if_splits)
  then have "New maxlen h r c = Some (Inr \<lparr>rows = r, cols = c, data = length h\<rparr>,
      h @ [replicate (nat (sint r) * nat (sint c)) 0])"
    using r c assms(2) by (intro New_result)
  with assms(1) show "m' = \<lparr>rows = r, cols = c, data = length h\<rparr>"
    and "h' = h @ [replicate (nat (sint r) * nat (sint c)) 0]"
    by simp_all
qed

text \<open>
  Claim C6, amended. The invariant \<open>len(data) = rows * cols\<close> (\<open>valid\<close>) holds for every
  matrix that \<open>New(r, c)\<close> returns with a product \<open>r * c\<close> that does not overflow \<open>int\<close>,
  and \<open>New\<close> does return one when moreover \<open>r, c \<ge> 0\<close> and \<open>r * c\<close> is within the
  length \<open>make\<close> allocates. Every operation on matrices that satisfy the invariant
  preserves it: after \<open>Set\<close>, \<open>Each\<close>, \<open>Add\<close>, \<open>Sub\<close>, \<open>Addn\<close> and \<open>Scale\<close> every
  matrix \<open>y\<close> that satisfied it still does, so no length and no dimension has changed,
  and the new instances returned by \<open>T()\<close> and \<open>Clone()\<close> satisfy it too.
\<close>

theorem invariant_kept:
  fixes h :: "'a::{zero,plus,minus,times} heap"
  shows "(New maxlen h r c = Some (Inr k, s) \<and> sint r * sint c < 2 ^ 63 \<longrightarrow>
        valid s k \<and> fits maxlen s k \<and> (valid h y \<longrightarrow> valid s y))
   \<and> (0 \<le>s r \<and> 0 \<le>s c \<and> sint r * sint c < 2 ^ 63 \<and> sint r * sint c \<le> int maxlen \<longrightarrow>
        (\<exists>m' h'. New maxlen h r c = Some (Inr m', h') \<and> valid h' m' \<and> fits maxlen h' m'
           \<and> (valid h y \<longrightarrow> valid h' y)))
   \<and> (valid h m \<and> valid h y \<longrightarrow>
        (\<forall>i j v e h'. Set h m i j v = Some (e, h') \<longrightarrow> valid h' y)
        \<and> (\<exists>h'. Each h m f = Some h' \<and> valid h' y)
        \<and> (\<exists>h'. Addn h m n = Some h' \<and> valid h' y)
        \<and> (\<exists>h'. Scale h m n = Some h' \<and> valid h' y)
        \<and> (\<forall>x. valid h x \<longrightarrow>
              (\<exists>e h'. Add h m x = Some (e, h') \<and> valid h' y)
              \<and> (\<exists>e h'. Sub h m x = Some (e, h') \<and> valid h' y)))
   \<and> (valid h m \<and> fits maxlen h m \<and> valid h y \<longrightarrow>
        (\<exists>t h'. T maxlen h m = Some (t, h') \<and> valid h' t \<and> fits maxlen h' t \<and> valid h' y)
        \<and> (\<exists>c h'. Clone maxlen h m = Some (c, h') \<and> valid h' c \<and> fits maxlen h' c
              \<and> valid h' y))"
proof (intro conjI impI allI)
  assume "New maxlen h r c = Some (Inr k, s) \<and> sint r * sint c < 2 ^ 63"
  then have new: "New maxlen h r c = Some (Inr k, s)" and small: "sint r * sint c < 2 ^ 63"
    by simp_all
  note ret = New_returns [OF new small]
  show "valid s k"
    unfolding ret(4,5) using ret(1,2) small by (rule valid_New)
  show "fits maxlen s k"
    unfolding ret(4,5) using ret(1,2,3) by (rule fits_New)
  assume "valid h y"
  then show "valid s y"
    unfolding ret(5) by (rule valid_append)
next
  assume "0 \<le>s r \<and> 0 \<le>s c \<and> sint r * sint c < 2 ^ 63 \<and> sint r * sint c \<le> int maxlen"
  then show "\<exists>m' h'. New maxlen h r c = Some (Inr m', h') \<and> valid h' m' \<and> fits maxlen h' m'
      \<and> (valid h y \<longrightarrow> valid h' y)"
    by (simp add: New_result valid_New fits_New valid_append)
next
  fix i j v e h'
  assume "valid h m \<and> valid h y" and "Set h m i j v = Some (e, h')"
  then show "valid h' y"
    by (blast intro: valid_Set)
next
  assume "valid h m \<and> valid h y"
  then show "\<exists>h'. Each h m f = Some h' \<and> valid h' y"
    by (simp add: Each_result valid_map_update)
next
  assume "valid h m \<and> valid h y"
  then show "\<exists>h'. Addn h m n = Some h' \<and> valid h' y"
    by (simp add: Addn_result valid_map_update)
next
  assume "valid h m \<and> valid h y"
  then show "\<exists>h'. Scale h m n = Some h' \<and> valid h' y"
    by (simp add: Scale_result valid_map_update)
next
  fix x
  assume a: "valid h m \<and> valid h y" and x: "valid h x"
  show "\<exists>e h'. Add h m x = Some (e, h') \<and> valid h' y"
  proof (cases "rows m = rows x \<and> cols m = cols x")
    case True
    with a x show ?thesis
      by (simp add: Add_result valid_map_update)
  next
    case False
    with a show ?thesis
      by (auto simp: Add_def checkEqualDimentions_def)
  qed
  show "\<exists>e h'. Sub h m x = Some (e, h') \<and> valid h' y"
  proof (cases "rows m = rows x \<and> cols m = cols x")
    case True
    with a x show ?thesis
      by (simp add: Sub_result valid_map_update)
  next
    case False
    with a show ?thesis
      by (auto simp: Sub_def checkEqualDimentions_def)
  qed
next
  assume "valid h m \<and> fits maxlen h m \<and> valid h y"
  then have m: "valid h m" and w: "fits maxlen h m" and y: "valid h y"
    by simp_all
  have "fits maxlen (h @ [map (\<lambda>q. h ! data m ! src (nat (sint (rows m))) (nat (sint (cols m))) q)
      [0..<nat (sint (rows m)) * nat (sint (cols m))]])
      \<lparr>rows = cols m, cols = rows m, data = length h\<rparr>"
    using m w by (rule fits_new_array) simp
  then show "\<exists>t h'. T maxlen h m = Some (t, h') \<and> valid h' t \<and> fits maxlen h' t \<and> valid h' y"
    using m w y by (simp add: T_result valid_T valid_append)
next
  assume "valid h m \<and> fits maxlen h m \<and> valid h y"
  then have m: "valid h m" and w: "fits maxlen h m" and y: "valid h y"
    by simp_all
  have "fits maxlen (h @ [h ! data m]) \<lparr>rows = rows m, cols = cols m, data = length h\<rparr>"
    using m w valid_length [OF m] by (rule fits_new_array)
  then show "\<exists>c h'. Clone maxlen h m = Some (c, h') \<and> valid h' c \<and> fits maxlen h' c
      \<and> valid h' y"
    using m w y by (simp add: Clone_result valid_Clone valid_append)
qed

text \<open>\<open>New(1, 2)\<close>, \<open>Set\<close>, \<open>Scale(2)\<close>, \<open>T()\<close> and \<open>Clone()\<close> around the matrix
  \<open>[[1, 2, 3], [4, 5, 6]]\<close>.\<close>

theorem invariant_kept_witness:
  "valid [[1, 2, 3, 4, 5, 6 :: real]] \<lparr>rows = 2, cols = 3, data = 0\<rparr>
   \<and> fits (2 ^ 45) [[1, 2, 3, 4, 5, 6 :: real]] \<lparr>rows = 2, cols = 3, data = 0\<rparr>
   \<and> 0 \<le>s (1 :: go_int) \<and> 0 \<le>s (2 :: go_int) \<and> sint (1 :: go_int) * sint (2 :: go_int) < 2 ^ 63
   \<and> sint (1 :: go_int) * sint (2 :: go_int) \<le> int (2 ^ 45)
   \<and> New (2 ^ 45) [[1, 2, 3, 4, 5, 6 :: real]] 1 2
       = Some (Inr \<lparr>rows = 1, cols = 2, data = 1\<rparr>, [[1, 2, 3, 4, 5, 6], [0, 0]])
   \<and> valid [[1, 2, 3, 4, 5, 6 :: real], [0, 0]] \<lparr>rows = 1, cols = 2, data = 1\<rparr>
   \<and> valid [[1, 2, 3, 4, 5, 6 :: real], [0, 0]] \<lparr>rows = 2, cols = 3, data = 0\<rparr>
   \<and> Set [[1, 2, 3, 4, 5, 6 :: real]] \<lparr>rows = 2, cols = 3, data = 0\<rparr> 0 1 9
       = Some (None, [[1, 9, 3, 4, 5, 6]])
   \<and> valid [[1, 9, 3, 4, 5, 6 :: real]] \<lparr>rows = 2, cols = 3, data = 0\<rparr>
   \<and> Scale [[1, 2, 3, 4, 5, 6 :: real]] \<lparr>rows = 2, cols = 3, data = 0\<rparr> 2
       = Some [[2, 4, 6, 8, 10, 12]]
   \<and> valid [[2, 4, 6, 8, 10, 12 :: real]] \<lparr>rows = 2, cols = 3, data = 0\<rparr>
   \<and> T (2 ^ 45) [[1, 2, 3, 4, 5, 6 :: real]] \<lparr>rows = 2, cols = 3, data = 0\<rparr>
       = Some (\<lparr>rows = 3, cols = 2, data = 1\<rparr>, [[1, 2, 3, 4, 5, 6], [1, 4, 2, 5, 3, 6]])
   \<and> valid [[1, 2, 3, 4, 5, 6 :: real], [1, 4, 2, 5, 3, 6]] \<lparr>rows = 3, cols = 2, data = 1\<rparr>
   \<and> Clone (2 ^ 45) [[1, 2, 3, 4, 5, 6 :: real]] \<lparr>rows = 2, cols = 3, data = 0\<rparr>
       = Some (\<lparr>rows = 2, cols = 3, data = 1\<rparr>, [[1, 2, 3, 4, 5, 6], [1, 2, 3, 4, 5, 6]])
   \<and> valid [[1, 2, 3, 4, 5, 6 :: real], [1, 2, 3, 4, 5, 6]] \<lparr>rows = 2, cols = 3, data = 1\<rparr>"
proof -
  let ?h = "[[1, 2, 3, 4, 5, 6 :: real]]" and ?m = "\<lparr>rows = 2, cols = 3, data = 0\<rparr>"
  let ?k = "\<lparr>rows = 1, cols = 2, data = 1\<rparr>" and ?s = "[[1, 2, 3, 4, 5, 6 :: real], [0, 0]]"
  have v: "valid ?h ?m"
    by (simp add: valid_def word_sle_eq)
  have w: "fits (2 ^ 45) ?h ?m"
    by (simp add: fits_def slice_def)
  have hyp: "0 \<le>s (1 :: go_int) \<and> 0 \<le>s (2 :: go_int) \<and> sint (1 :: go_int) * sint (2 :: go_int) < 2 ^ 63
      \<and> sint (1 :: go_int) * sint (2 :: go_int) \<le> int (2 ^ 45)"
    by (simp add: word_sle_eq)
  have new: "New (2 ^ 45) ?h 1 2 = Some (Inr ?k, ?s)"
    by (simp add: New_def make_def word_sless_alt replicate_numeral)
  have set: "Set ?h ?m 0 1 9 = Some (None, [[1, 9, 3, 4, 5, 6]])"
    by (simp add: Set_def checkRange_def set_m_def assign_def slice_def word_sle_eq word_sless_alt)
  have scale: "Scale ?h ?m 2 = Some [[2, 4, 6, 8, 10, 12]]"
    by (simp add: Scale_def for_loop.simps get_def set_m_def index_def assign_def slice_def
        word_sless_alt word_sle_eq)
  have t: "T (2 ^ 45) ?h ?m = Some (\<lparr>rows = 3, cols = 2, data = 1\<rparr>, [[1, 2, 3, 4, 5, 6], [1, 4, 2, 5, 3, 6]])"
    by (simp add: T_def make_def for_loop.simps get_def set_m_def index_def
        assign_def slice_def word_sless_alt word_sle_eq replicate_numeral)
  have clone: "Clone (2 ^ 45) ?h ?m = Some (\<lparr>rows = 2, cols = 3, data = 1\<rparr>, [[1, 2, 3, 4, 5, 6], [1, 2, 3, 4, 5, 6]])"
    by (simp add: Clone_def make_def copy_def slice_def word_sless_alt replicate_numeral)
  note inst = invariant_kept [where h = ?h and m = ?m and y = ?m and r = 1 and c = 2
      and maxlen = "2 ^ 45" and k = ?k and s = ?s and f = "\<lambda>i j v. v" and n = 2]
  from inst new hyp v have 1: "valid ?s ?k" "valid ?s ?m"
    by blast+
  from inst hyp obtain m' h' where "New (2 ^ 45) ?h 1 2 = Some (Inr m', h')"
    by blast
  from inst v set have 2: "valid [[1, 9, 3, 4, 5, 6 :: real]] ?m"
    by blast
  from inst v obtain hs where "Scale ?h ?m 2 = Some hs" "valid hs ?m"
    by blast
  with scale have 3: "valid [[2, 4, 6, 8, 10, 12 :: real]] ?m"
    by simp
  from inst v w obtain t' ht where "T (2 ^ 45) ?h ?m = Some (t', ht)" "valid ht t'"
    by blast
  with t have 4: "valid [[1, 2, 3, 4, 5, 6 :: real], [1, 4, 2, 5, 3, 6]] \<lparr>rows = 3, cols = 2, data = 1\<rparr>"
    by simp
  from inst v w obtain c' hc where "Clone (2 ^ 45) ?h ?m = Some (c', hc)" "valid hc c'"
    by blast
  with clone have 5: "valid [[1, 2, 3, 4, 5, 6 :: real], [1, 2, 3, 4, 5, 6]] \<lparr>rows = 2, cols = 3, data = 1\<rparr>"
    by simp
  show ?thesis
    using v w hyp new set scale t clone 1 2 3 4 5 by simp
qed

text \<open>
  Claim C6 as stated, for every matrix constructed by \<open>New\<close>, fails:
  \<open>New(1 << 33, 1 << 31)\<close> returns a matrix whose \<open>rows * cols\<close> is \<open>2 ^ 64\<close> over
  storage of length \<open>0\<close>, the product passed to \<open>make\<close> having wrapped to \<open>0\<close>.
\<close>

theorem New_breaks_invariant_counterexample:
  "0 \<le>s (2 ^ 33 :: go_int) \<and> 0 \<le>s (2 ^ 31 :: go_int)
   \<and> New (2 ^ 45) ([] :: real heap) (2 ^ 33) (2 ^ 31)
       = Some (Inr \<lparr>rows = 2 ^ 33, cols = 2 ^ 31, data = 0\<rparr>, [[]])
   \<and> length (slice ([[]] :: real heap) (data \<lparr>rows = 2 ^ 33, cols = 2 ^ 31, data = 0\<rparr>)) = 0
   \<and> sint (rows \<lparr>rows = 2 ^ 33, cols = 2 ^ 31, data = 0\<rparr>)
       * sint (cols \<lparr>rows = 2 ^ 33, cols = 2 ^ 31, data = 0\<rparr>) = 2 ^ 64
   \<and> \<not> valid ([[]] :: real heap) \<lparr>rows = 2 ^ 33, cols = 2 ^ 31, data = 0\<rparr>"
  by (simp add: New_def make_def slice_def valid_def word_sless_alt word_sle_eq)

end
